theory Spec2Isabelle
  imports Main "HOL-Library.Sublist"
begin

section \<open>Strings\<close>

text \<open>
  A JavaScript string is a sequence of UTF-16 code units; \<open>length\<close>, indexing and
  \<open>slice\<close> count code units. A code unit is modelled as a natural number (below 65536);
  no arithmetic is done on code units, they are only compared. The horizontal ellipsis
  U+2026 is one code unit, the escape character U+001B starts a styling code.
\<close>

type_synonym jsstring = "nat list"

definition js :: "string \<Rightarrow> jsstring" where
  "js s = map of_char s"

definition ellipsis :: nat where
  "ellipsis = 8230"

definition ESC :: nat where
  "ESC = 27"

text \<open>\<^verbatim>\<open>`${count}`\<close>: the decimal digits of a non-negative integer counter.\<close>

fun toString :: "nat \<Rightarrow> jsstring" where
  "toString n = (if n < 10 then [48 + n] else toString (n div 10) @ [48 + n mod 10])"

declare toString.simps [simp del]

text \<open>\<^verbatim>\<open>[...].join(sep)\<close>\<close>

fun join :: "jsstring \<Rightarrow> jsstring list \<Rightarrow> jsstring" where
  "join sep [] = []"
| "join sep [x] = x"
| "join sep (x # y # ys) = x @ sep @ join sep (y # ys)"

text \<open>\<^verbatim>\<open>s.padEnd(n)\<close>: pads with spaces up to length \<open>n\<close>; a longer string is unchanged.\<close>

definition padEnd :: "nat \<Rightarrow> jsstring \<Rightarrow> jsstring" where
  "padEnd n s = s @ replicate (n - length s) 32"

text \<open>
  \<^verbatim>\<open>s.slice(0, end)\<close>: a negative \<open>end\<close> counts from the end of the string
  (\<open>max (length s + end) 0\<close>), a non-negative one is capped at the length.
\<close>

definition slice0 :: "int \<Rightarrow> jsstring \<Rightarrow> jsstring" where
  "slice0 e s = (if e < 0 then take (nat (max (int (length s) + e) 0)) s else take (nat e) s)"

section \<open>Status lattice\<close>

text \<open>\<^verbatim>\<open>type Status = '...' | 'done' | 'skip' | 'warn' | 'fail'\<close>; \<open>Pending\<close> is \<^verbatim>\<open>'...'\<close>.\<close>

datatype Status = Pending | Done | Skip | Warn | Fail

fun statusStrength :: "Status \<Rightarrow> nat" where
  "statusStrength Pending = 0"
| "statusStrength Done = 1"
| "statusStrength Warn = 2"
| "statusStrength Fail = 3"
| "statusStrength Skip = 4"

section \<open>Message compression\<close>

text \<open>
  \<^verbatim>\<open>commonLen\<close>: the \<^verbatim>\<open>for\<close> loop over \<open>result\<close>, which stops at \<open>cmpLen\<close> or at the
  first index where the two strings differ.
\<close>

function commonLen_loop :: "jsstring \<Rightarrow> jsstring \<Rightarrow> nat \<Rightarrow> nat \<Rightarrow> nat" where
  "commonLen_loop a b cmpLen result =
     (if result < cmpLen
      then (if a ! result \<noteq> b ! result then result
            else commonLen_loop a b cmpLen (result + 1))
      else result)"
  by pat_completeness auto
termination
  by (relation "measure (\<lambda>(a, b, cmpLen, result). cmpLen - result)") auto

declare commonLen_loop.simps [simp del]

definition commonLen :: "jsstring \<Rightarrow> jsstring \<Rightarrow> nat" where
  "commonLen a b = commonLen_loop a b (min (length a) (length b)) 0"

text \<open>\<^verbatim>\<open>`${a.slice(0, commonLen(a, b))} \<dots> [${count}]`\<close>\<close>

definition combineStrings :: "jsstring \<Rightarrow> jsstring \<Rightarrow> nat \<Rightarrow> jsstring" where
  "combineStrings a b count =
     take (commonLen a b) a @ [32, ellipsis, 32] @ js ''['' @ toString count @ js '']''"

section \<open>The imported packages and the terminal\<close>

text \<open>
  The program imports \<^verbatim>\<open>strip-ansi\<close> and \<^verbatim>\<open>chalk\<close> and reads
  \<^verbatim>\<open>process.stdout.columns\<close>. They are not part of the repository, so every function
  that uses them takes them as an environment: \<open>stripAnsi\<close> removes styling codes,
  \<open>chalk c s\<close> wraps \<open>s\<close> in the styling codes of colour \<open>c\<close>, and \<open>columns\<close> is the
  terminal width (\<open>None\<close> when standard output is not a terminal).
\<close>

datatype Colour = Green | Yellow | Ansi256 nat | Red | Cyan

record Env =
  stripAnsi :: "jsstring \<Rightarrow> jsstring"
  chalk :: "Colour \<Rightarrow> jsstring \<Rightarrow> jsstring"
  columns :: "nat option"

fun statusText :: "Env \<Rightarrow> Status \<Rightarrow> jsstring" where
  "statusText env Pending = js ''....''"
| "statusText env Done = chalk env Green (js ''Done'')"
| "statusText env Skip = chalk env Yellow (js ''Skip'')"
| "statusText env Warn = chalk env (Ansi256 214) (js ''Warn'')"
| "statusText env Fail = chalk env Red (js ''Fail'')"

text \<open>\<^verbatim>\<open>process.stdout.columns || 80\<close>: an undefined or zero width reads as 80.\<close>

definition available :: "Env \<Rightarrow> nat" where
  "available env = (case columns env of None \<Rightarrow> 80 | Some c \<Rightarrow> if c = 0 then 80 else c)"

section \<open>Promises\<close>

text \<open>
  The state of a promise: still pending, fulfilled with a value, or rejected with an
  \<^verbatim>\<open>Error\<close> whose \<^verbatim>\<open>message\<close> is carried.
\<close>

datatype 'a promise = Unsettled | Fulfilled 'a | Rejected jsstring

text \<open>
  \<^verbatim>\<open>Promise.all\<close> on promises whose values are not used: rejected as soon as one of
  them is rejected, fulfilled when all are, pending otherwise. Where several are
  rejected JavaScript reports the one that was rejected first in time; the state does
  not record times and the first in list order is reported.
\<close>

fun promise_all :: "unit promise list \<Rightarrow> unit promise" where
  "promise_all [] = Fulfilled ()"
| "promise_all (p # ps) =
     (case p of
        Rejected e \<Rightarrow> Rejected e
      | Unsettled \<Rightarrow> (case promise_all ps of Rejected e \<Rightarrow> Rejected e | _ \<Rightarrow> Unsettled)
      | Fulfilled _ \<Rightarrow> promise_all ps)"

section \<open>Task node\<close>

text \<open>
  The fields of \<^verbatim>\<open>class Task\<close>: \<^verbatim>\<open>_description\<close>, \<^verbatim>\<open>_status\<close>, \<^verbatim>\<open>_subTasks\<close>,
  \<^verbatim>\<open>_logs\<close>, \<^verbatim>\<open>_message\<close>, \<^verbatim>\<open>_msgCount\<close> and the state of \<^verbatim>\<open>_completion\<close>
  (its value is dropped). The back-reference \<^verbatim>\<open>_owner\<close> is only used to call
  \<^verbatim>\<open>requestRerender\<close>: a method returns the updated node together with the number
  of \<^verbatim>\<open>this._owner.requestRerender()\<close> calls it made.
\<close>

datatype Task = Task
  (description: jsstring)
  (status: Status)
  (subTasks: "Task list")
  (logs: "jsstring list")
  (message: jsstring)
  (msgCount: nat)
  (completion: "unit promise")

text \<open>The node as the constructor leaves it before the operation has run.\<close>

definition newTask :: "jsstring \<Rightarrow> Task" where
  "newTask d = Task d Pending [] [] [] 0 Unsettled"

text \<open>\<^verbatim>\<open>set status(status)\<close>\<close>

fun set_status :: "Status \<Rightarrow> Task \<Rightarrow> Task \<times> nat" where
  "set_status incoming (Task d s subs lg m c p) =
     (if statusStrength incoming > statusStrength s
      then (Task d incoming subs lg m c p, 1)
      else (Task d s subs lg m c p, 0))"

text \<open>A sequence of \<^verbatim>\<open>setStatus\<close> calls on one node, in call order.\<close>

fun set_statuses :: "Status list \<Rightarrow> Task \<Rightarrow> Task" where
  "set_statuses [] t = t"
| "set_statuses (s # ss) t = set_statuses ss (fst (set_status s t))"

text \<open>\<^verbatim>\<open>addMessage(msg)\<close>\<close>

fun addMessage :: "Env \<Rightarrow> jsstring \<Rightarrow> Task \<Rightarrow> Task \<times> nat" where
  "addMessage env msg (Task d s subs lg m c p) =
     (let stripped = stripAnsi env msg; c' = c + 1
      in if length m = 0 then (Task d s subs lg stripped c' p, 0)
         else (Task d s subs lg (combineStrings m stripped c') c' p, 1))"

text \<open>\<^verbatim>\<open>addLog(log)\<close>\<close>

fun addLog :: "jsstring \<Rightarrow> Task \<Rightarrow> Task" where
  "addLog l (Task d s subs lg m c p) = Task d s subs (lg @ [l]) m c p"

text \<open>\<^verbatim>\<open>update()\<close>\<close>

definition update :: "Task \<Rightarrow> Task \<times> nat" where
  "update t =
     (if length (subTasks t) > 0
      then (if list_ex (\<lambda>c. status c = Fail) (subTasks t) then set_status Fail t
            else if list_ex (\<lambda>c. status c = Warn) (subTasks t) then set_status Warn t
            else if \<not> list_ex (\<lambda>c. status c = Pending) (subTasks t) then set_status Done t
            else (t, 0))
      else (t, 0))"

section \<open>The specification's status contract\<close>

text \<open>
  The specification's \<^verbatim>\<open>escalate(current, incoming)\<close>: \<open>incoming\<close> if it ranks strictly
  higher than \<open>current\<close>, else \<open>current\<close>. It is written from the specification, to be
  compared with the setter of the code.
\<close>

definition spec_escalate :: "Status \<Rightarrow> Status \<Rightarrow> Status" where
  "spec_escalate current incoming =
     (if statusStrength incoming > statusStrength current then incoming else current)"

text \<open>
  The specification's "worst status among its children combined with its own explicit
  status": the highest-ranked status among the node's own and its children's.
\<close>

definition spec_worst :: "Status \<Rightarrow> Status list \<Rightarrow> Status" where
  "spec_worst own cs = fold (\<lambda>c acc. spec_escalate acc c) cs own"

text \<open>How \<^verbatim>\<open>update()\<close> reads a child's \<^verbatim>\<open>skip\<close>: as settled, like \<^verbatim>\<open>done\<close>.\<close>

definition skip_as_done :: "Status \<Rightarrow> Status" where
  "skip_as_done s = (if s = Skip then Done else s)"

text \<open>Small trees for the examples: a node without children, and a parent of such nodes.\<close>

definition leaf :: "Status \<Rightarrow> Task" where
  "leaf s = Task [] s [] [] [] 0 Unsettled"

definition parent_with :: "Status \<Rightarrow> Status list \<Rightarrow> Task" where
  "parent_with own cs = Task [] own (map leaf cs) [] [] 0 Unsettled"

section \<open>Rendering\<close>

text \<open>\<^verbatim>\<open>lineLength(depth)\<close>\<close>

fun lineLength :: "Env \<Rightarrow> nat \<Rightarrow> Task \<Rightarrow> nat" where
  "lineLength env depth (Task d s subs lg m c p) =
     fold (\<lambda>task previous. max previous (lineLength env (depth + 1) task)) subs
       (length (stripAnsi env d) + 2 * depth)"

text \<open>
  The first part of \<^verbatim>\<open>render(depth, lineLength)\<close>: the line of the node itself, cut
  when its width without styling codes exceeds the terminal's.
\<close>

definition render_line :: "Env \<Rightarrow> nat \<Rightarrow> nat \<Rightarrow> Task \<Rightarrow> jsstring" where
  "render_line env depth len t =
     (let pad = replicate (depth * 2) 32;
          postPad = concat (replicate depth (js ''| ''));
          line0 = padEnd len (pad @ description t)
                  @ js ''  '' @ postPad @ js ''['' @ statusText env (status t) @ js '']'';
          line = (if length (message t) > 0 then line0 @ js '' - '' @ message t else line0);
          visualLength = length (stripAnsi env line);
          ansiCount = int (length line) - int visualLength
      in if visualLength > available env
         then slice0 (int (available env) + ansiCount - 2) line @ [32, ellipsis]
         else line)"

text \<open>\<^verbatim>\<open>render\<close>: the node's line and its children's renders, joined by newlines.\<close>

fun render :: "Env \<Rightarrow> nat \<Rightarrow> nat \<Rightarrow> Task \<Rightarrow> jsstring" where
  "render env depth len (Task d s subs lg m c p) =
     join [10] (render_line env depth len (Task d s subs lg m c p)
                # map (render env (depth + 1) len) subs)"

text \<open>
  \<^verbatim>\<open>printLogs()\<close>: the arguments of its \<^verbatim>\<open>console.log\<close> calls in order, and the
  exception that ended it, if any. \<^verbatim>\<open>' '.repeat(padding / 2)\<close> truncates its argument
  towards zero and throws a \<^verbatim>\<open>RangeError\<close> when the result is negative, that is when
  \<open>padding \<le> -2\<close>.
\<close>

datatype error = RangeError

fun printLogs :: "Env \<Rightarrow> Task \<Rightarrow> jsstring list \<times> error option" where
  "printLogs env (Task d s subs lg m c p) =
     (let own =
        (if length lg > 0
         then (let header = js ''###### '' @ chalk env Cyan d @ js '' : ''
                            @ toString (length lg) @ js '' ######'';
                   padding = int (available env) - int (length (stripAnsi env header))
               in if padding \<le> - 2 then ([], Some RangeError)
                  else (([10] @ replicate (nat (padding div 2)) 32 @ header) # [] # lg, None))
         else ([], None))
      in fold (\<lambda>t (out, e). case e of
                  Some x \<Rightarrow> (out, e)
                | None \<Rightarrow> (case printLogs env t of (out', e') \<Rightarrow> (out @ out', e')))
           subs own)"

section \<open>A terminal with colours\<close>

text \<open>
  One instance of the environment. \<open>chalk_sgr\<close> writes the colour codes \<^verbatim>\<open>chalk\<close>
  writes when colours are supported: \<^verbatim>\<open>ESC [ 3x m\<close> (or \<^verbatim>\<open>ESC [ 38;5;n m\<close>) before
  the text and the reset \<^verbatim>\<open>ESC [ 39 m\<close> after it. \<open>strip_sgr\<close> removes every complete
  code of the form \<^verbatim>\<open>ESC [\<close>, digits and semicolons, \<^verbatim>\<open>m\<close>; on strings whose escape
  characters all start such a code, and on strings without escape characters, that is
  what \<^verbatim>\<open>strip-ansi\<close> returns.
\<close>

fun sgr_open :: "Colour \<Rightarrow> jsstring" where
  "sgr_open Green = [ESC] @ js ''[32m''"
| "sgr_open Yellow = [ESC] @ js ''[33m''"
| "sgr_open (Ansi256 n) = [ESC] @ js ''[38;5;'' @ toString n @ js ''m''"
| "sgr_open Red = [ESC] @ js ''[31m''"
| "sgr_open Cyan = [ESC] @ js ''[36m''"

definition sgr_close :: jsstring where
  "sgr_close = [ESC] @ js ''[39m''"

definition chalk_sgr :: "Colour \<Rightarrow> jsstring \<Rightarrow> jsstring" where
  "chalk_sgr c s = sgr_open c @ s @ sgr_close"

text \<open>After \<^verbatim>\<open>ESC [\<close>: digits and semicolons up to the final \<^verbatim>\<open>m\<close>; the rest of the string.\<close>

fun sgr_rest :: "jsstring \<Rightarrow> jsstring option" where
  "sgr_rest [] = None"
| "sgr_rest (c # cs) =
     (if c = 109 then Some cs
      else if (48 \<le> c \<and> c \<le> 57) \<or> c = 59 then sgr_rest cs
      else None)"

lemma sgr_rest_shorter: "sgr_rest cs = Some r \<Longrightarrow> length r < length cs"
  by (induction cs) (auto split: if_splits)

function strip_sgr :: "jsstring \<Rightarrow> jsstring" where
  "strip_sgr [] = []"
| "strip_sgr (c # cs) =
     (if c = ESC \<and> cs \<noteq> [] \<and> hd cs = 91 \<and> sgr_rest (tl cs) \<noteq> None
      then strip_sgr (the (sgr_rest (tl cs)))
      else c # strip_sgr cs)"
  by pat_completeness auto
termination
proof (relation "measure length")
  show "wf (measure length)" by simp
next
  fix c :: nat and cs :: jsstring
  assume "c = ESC \<and> cs \<noteq> [] \<and> hd cs = 91 \<and> sgr_rest (tl cs) \<noteq> None"
  then obtain r where r: "sgr_rest (tl cs) = Some r" and ne: "cs \<noteq> []" by auto
  from r have "length r < length (tl cs)" by (rule sgr_rest_shorter)
  with r ne show "(the (sgr_rest (tl cs)), c # cs) \<in> measure length" by simp
next
  fix c :: nat and cs :: jsstring
  show "(cs, c # cs) \<in> measure length" by simp
qed

definition colour_terminal :: "nat option \<Rightarrow> Env" where
  "colour_terminal cols = \<lparr>stripAnsi = strip_sgr, chalk = chalk_sgr, columns = cols\<rparr>"

section \<open>Running an operation on a node\<close>

text \<open>
  An operation runs with its node as the ambient task. It is modelled by what it has
  done to that node when it settles (or when it stops for good without settling): the
  node after the \<^verbatim>\<open>setStatus\<close>, \<^verbatim>\<open>setMessage\<close>, logging and \<^verbatim>\<open>run\<close> calls made
  inside it, the number of redraws these calls requested, and the state of the promise
  the operation returned.
\<close>

type_synonym 'a operation = "Task \<Rightarrow> Task \<times> nat \<times> 'a promise"

text \<open>\<^verbatim>\<open>wait()\<close> on the state: \<^verbatim>\<open>_completion\<close> first, then the children's \<^verbatim>\<open>wait()\<close>.\<close>

fun wait :: "Task \<Rightarrow> unit promise" where
  "wait (Task d s subs lg m c p) =
     (case p of
        Unsettled \<Rightarrow> Unsettled
      | Rejected e \<Rightarrow> Rejected e
      | Fulfilled _ \<Rightarrow> promise_all (map wait subs))"

fun set_completion :: "unit promise \<Rightarrow> Task \<Rightarrow> Task" where
  "set_completion q (Task d s subs lg m c p) = Task d s subs lg m c q"

text \<open>The \<^verbatim>\<open>catch\<close> block of \<^verbatim>\<open>performTask\<close>.\<close>

definition performTask_catch :: "Env \<Rightarrow> jsstring \<Rightarrow> Task \<Rightarrow> nat \<Rightarrow> Task \<times> nat \<times> 'a promise" where
  "performTask_catch env e owner n =
     (case set_status Fail owner of (o1, n1) \<Rightarrow>
      case addMessage env e o1 of (o2, n2) \<Rightarrow>
        (set_completion (Rejected e) o2, n + n1 + n2 + 1, Rejected e))"

text \<open>
  \<^verbatim>\<open>performTask(task, owner)\<close>. The node it returns has \<^verbatim>\<open>_completion\<close> in the state
  of the promise \<^verbatim>\<open>performTask\<close> returned, as the constructor stores it. While the
  operation or a subtask's \<^verbatim>\<open>wait()\<close> is pending, so is the result.
\<close>

definition performTask :: "Env \<Rightarrow> 'a operation \<Rightarrow> Task \<Rightarrow> Task \<times> nat \<times> 'a promise" where
  "performTask env task owner =
     (case task owner of (o1, n1, r) \<Rightarrow>
        (case r of
           Unsettled \<Rightarrow> (o1, n1, Unsettled)
         | Rejected e \<Rightarrow> performTask_catch env e o1 n1
         | Fulfilled result \<Rightarrow>
             (case promise_all (map wait (subTasks o1)) of
                Unsettled \<Rightarrow> (o1, n1, Unsettled)
              | Rejected e \<Rightarrow> performTask_catch env e o1 n1
              | Fulfilled _ \<Rightarrow>
                  (case set_status Done o1 of (o2, n2) \<Rightarrow>
                     (set_completion (Fulfilled ()) o2, n1 + n2 + 1, Fulfilled result)))))"








section \<open>Runner\<close>

text \<open>
  The functions bound to \<^verbatim>\<open>console.log\<close>, \<^verbatim>\<open>console.warn\<close>, \<^verbatim>\<open>console.error\<close> and
  \<^verbatim>\<open>console.info\<close>: the host's own one, or one of the three interceptors the runner's
  constructor defines.
\<close>

datatype consoleFn = Host | ConsoleHandler | WarningHandler | ErrorHandler

record Console =
  console_log :: consoleFn
  console_warn :: consoleFn
  console_error :: consoleFn
  console_info :: consoleFn

text \<open>
  \<^verbatim>\<open>class Runner\<close>. \<open>backend\<close> is the number of the terminal-painting session
  \<^verbatim>\<open>logUpdate.create\<close> returned, \<open>rerender\<close> the handle \<^verbatim>\<open>setImmediate\<close> returned.
\<close>

record Runner =
  terminatedRoots :: nat
  backend :: nat
  roots :: "Task list"
  rerender :: "nat option"
  consoleLog :: consoleFn
  consoleErr :: consoleFn
  consoleWarn :: consoleFn
  consoleInfo :: consoleFn

text \<open>
  The state the module works on: the module variable \<^verbatim>\<open>currentRunner\<close>, the global
  \<^verbatim>\<open>console\<close>, the callbacks \<^verbatim>\<open>setImmediate\<close> has queued (by handle; each is the
  redraw callback of the runner), the next handle, the number of terminal-painting
  sessions created, the frames painted (with their session), the sessions finalized
  by \<^verbatim>\<open>done()\<close>, and what the host's \<^verbatim>\<open>console.log\<close> has printed.
\<close>

record World =
  currentRunner :: "Runner option"
  console :: Console
  immediates :: "nat list"
  nextImmediate :: nat
  sessions :: nat
  painted :: "(nat \<times> jsstring) list"
  finished :: "nat list"
  stdout :: "jsstring list"

text \<open>The module just loaded: no runner, the host's console.\<close>

definition initial :: World where
  "initial = \<lparr>currentRunner = None,
     console = \<lparr>console_log = Host, console_warn = Host, console_error = Host,
                console_info = Host\<rparr>,
     immediates = [], nextImmediate = 0, sessions = 0, painted = [], finished = [],
     stdout = []\<rparr>"

text \<open>The console as the constructor of the runner leaves it.\<close>

definition intercepted :: Console where
  "intercepted = \<lparr>console_log = ConsoleHandler, console_warn = WarningHandler,
     console_error = ErrorHandler, console_info = ConsoleHandler\<rparr>"

text \<open>\<^verbatim>\<open>new Runner()\<close>, stored in \<^verbatim>\<open>currentRunner\<close>.\<close>

definition new_Runner :: "World \<Rightarrow> World" where
  "new_Runner w =
     w\<lparr>currentRunner := Some \<lparr>terminatedRoots = 0, backend = sessions w, roots = [],
          rerender = None,
          consoleLog = console_log (console w), consoleErr = console_error (console w),
          consoleWarn = console_warn (console w), consoleInfo = console_info (console w)\<rparr>,
       sessions := sessions w + 1,
       console := intercepted\<rparr>"

text \<open>
  The interceptors, on the ambient task: \<^verbatim>\<open>consoleHandler\<close>, \<^verbatim>\<open>warningHandler\<close>,
  \<^verbatim>\<open>errorHandler\<close>.
\<close>

fun intercept :: "consoleFn \<Rightarrow> jsstring \<Rightarrow> Task \<Rightarrow> Task \<times> nat" where
  "intercept ConsoleHandler msg t = (addLog msg t, 0)"
| "intercept WarningHandler msg t = set_status Warn (addLog msg t)"
| "intercept ErrorHandler msg t = set_status Fail (addLog msg t)"
| "intercept Host msg t = (t, 0)"

text \<open>
  A \<^verbatim>\<open>console.log\<close> call made outside every task: the host's function prints, an
  interceptor finds no ambient task and drops the message.
\<close>

definition log_outside :: "jsstring \<Rightarrow> World \<Rightarrow> World" where
  "log_outside line w =
     (if console_log (console w) = Host then w\<lparr>stdout := stdout w @ [line]\<rparr> else w)"

text \<open>\<^verbatim>\<open>requestRerender()\<close> of the current runner.\<close>

definition requestRerender :: "World \<Rightarrow> World" where
  "requestRerender w =
     (case currentRunner w of
        None \<Rightarrow> w
      | Some r \<Rightarrow>
          (case rerender r of
             Some h \<Rightarrow> w
           | None \<Rightarrow>
               w\<lparr>currentRunner := Some (r\<lparr>rerender := Some (nextImmediate w)\<rparr>),
                 immediates := immediates w @ [nextImmediate w],
                 nextImmediate := nextImmediate w + 1\<rparr>))"

text \<open>\<^verbatim>\<open>this._roots.forEach((r) => r.update())\<close>, with the redraws the setters request.\<close>

definition update_roots :: "World \<Rightarrow> World" where
  "update_roots w =
     (case currentRunner w of
        None \<Rightarrow> w
      | Some r \<Rightarrow>
          (requestRerender ^^ sum_list (map (snd \<circ> update) (roots r)))
            (w\<lparr>currentRunner := Some (r\<lparr>roots := map (fst \<circ> update) (roots r)\<rparr>)\<rparr>))"

text \<open>\<^verbatim>\<open>_render()\<close>: one frame given to the terminal-painting session.\<close>

definition render_all :: "Env \<Rightarrow> World \<Rightarrow> World" where
  "render_all env w =
     (case currentRunner w of
        None \<Rightarrow> w
      | Some r \<Rightarrow>
          (let lineLen = fold (\<lambda>root previous. max previous (lineLength env 0 root)) (roots r) 0;
               renders = map (render env 0 lineLen) (roots r)
           in w\<lparr>painted := painted w @ [(backend r, join [10] renders)]\<rparr>))"

text \<open>The callback \<^verbatim>\<open>requestRerender\<close> gives to \<^verbatim>\<open>setImmediate\<close>.\<close>

definition redraw :: "Env \<Rightarrow> World \<Rightarrow> World" where
  "redraw env w =
     (let w1 = render_all env (update_roots w)
      in case currentRunner w1 of
           None \<Rightarrow> w1
         | Some r \<Rightarrow> w1\<lparr>currentRunner := Some (r\<lparr>rerender := None\<rparr>)\<rparr>)"

text \<open>
  One turn of the event loop's immediate phase: the callbacks queued when the phase
  starts run in order; a callback cancelled meanwhile does not run, one queued
  meanwhile runs in the next turn.
\<close>

definition tick :: "Env \<Rightarrow> World \<Rightarrow> World" where
  "tick env w =
     fold (\<lambda>h w'. if h \<in> set (immediates w')
                   then redraw env (w'\<lparr>immediates := removeAll h (immediates w')\<rparr>)
                   else w')
       (immediates w) w"

text \<open>\<^verbatim>\<open>this._roots.forEach((r) => r.printLogs())\<close> through \<^verbatim>\<open>console.log\<close>.\<close>

definition print_roots :: "Env \<Rightarrow> Task list \<Rightarrow> World \<Rightarrow> World \<times> error option" where
  "print_roots env rs w =
     fold (\<lambda>root (w', e). case e of
               Some x \<Rightarrow> (w', e)
             | None \<Rightarrow> (case printLogs env root of (out, e') \<Rightarrow> (fold log_outside out w', e')))
       rs (w, None)"

text \<open>
  The console functions the runner saved in its constructor, and what identifies a
  runner instance in a state: its terminal-painting session and the functions it saved.
\<close>

definition saved_console :: "Runner \<Rightarrow> Console" where
  "saved_console r =
     \<lparr>console_log = consoleLog r, console_warn = consoleWarn r,
      console_error = consoleErr r, console_info = consoleInfo r\<rparr>"

definition runner_session :: "World \<Rightarrow> (nat \<times> Console) option" where
  "runner_session w = map_option (\<lambda>r. (backend r, saved_console r)) (currentRunner w)"

text \<open>An operation that does nothing but resolve with the given value.\<close>

definition resolving :: "'a \<Rightarrow> 'a operation" where
  "resolving v owner = (owner, 0, Fulfilled v)"

text \<open>
  An operation that calls \<^verbatim>\<open>console.log(l)\<close> while the runner's interceptors are
  installed, and then resolves or rejects.
\<close>

definition logging :: "jsstring \<Rightarrow> unit operation" where
  "logging l owner = (case intercept ConsoleHandler l owner of (o', n) \<Rightarrow> (o', n, Fulfilled ()))"


text \<open>\<^verbatim>\<open>allDone()\<close>\<close>

definition allDone :: "Env \<Rightarrow> World \<Rightarrow> World \<times> error option" where
  "allDone env w =
     (case currentRunner w of
        None \<Rightarrow> (w, None)
      | Some r \<Rightarrow>
          (let w1 = (case rerender r of
                       Some h \<Rightarrow> w\<lparr>immediates := removeAll h (immediates w)\<rparr>
                     | None \<Rightarrow> w);
               w2 = render_all env (update_roots w1);
               w3 = w2\<lparr>finished := finished w2 @ [backend r]\<rparr>;
               w4 = w3\<lparr>console := saved_console r\<rparr>
           in case print_roots env (case currentRunner w4 of None \<Rightarrow> [] | Some r4 \<Rightarrow> roots r4) w4 of
                (w5, Some e) \<Rightarrow> (w5, Some e)
              | (w5, None) \<Rightarrow> (log_outside [10] w5, None)))"

text \<open>\<^verbatim>\<open>rootDone()\<close>\<close>

definition rootDone :: "Env \<Rightarrow> World \<Rightarrow> World \<times> error option" where
  "rootDone env w =
     (case currentRunner w of
        None \<Rightarrow> (w, None)
      | Some r \<Rightarrow>
          (let r1 = r\<lparr>terminatedRoots := terminatedRoots r + 1\<rparr>;
               w1 = w\<lparr>currentRunner := Some r1\<rparr>
           in if terminatedRoots r1 = length (roots r1) then allDone env w1 else (w1, None)))"

text \<open>
  \<^verbatim>\<open>run\<close> called outside every task (the \<^verbatim>\<open>!current\<close> branch), for an operation that
  settles before the event loop reaches its next immediate phase: the runner is created
  if \<^verbatim>\<open>currentRunner\<close> is unset, the new node runs its operation and is pushed on the
  roots, and once \<^verbatim>\<open>_completion\<close> has settled the \<^verbatim>\<open>finally\<close> block calls
  \<^verbatim>\<open>rootDone()\<close>. The result is the state of the returned promise, or the exception
  \<^verbatim>\<open>rootDone()\<close> threw in its place.
\<close>

definition push_root :: "Task \<Rightarrow> World \<Rightarrow> World" where
  "push_root taskObj w =
     (case currentRunner w of
        None \<Rightarrow> w
      | Some r \<Rightarrow> w\<lparr>currentRunner := Some (r\<lparr>roots := roots r @ [taskObj]\<rparr>)\<rparr>)"

definition run :: "Env \<Rightarrow> jsstring \<Rightarrow> 'a operation \<Rightarrow> World \<Rightarrow> World \<times> (error + 'a promise)" where
  "run env description' inTask w =
     (let w1 = (case currentRunner w of None \<Rightarrow> new_Runner w | Some r \<Rightarrow> w)
      in case performTask env inTask (newTask description') of (taskObj, n, r) \<Rightarrow>
           (let w2 = push_root taskObj ((requestRerender ^^ n) w1)
            in case r of
                 Unsettled \<Rightarrow> (w2, Inr Unsettled)
               | _ \<Rightarrow> (case rootDone env w2 of
                         (w3, Some e) \<Rightarrow> (w3, Inl e)
                       | (w3, None) \<Rightarrow> (w3, Inr r))))"


section \<open>The ambient task\<close>

text \<open>
  \<^verbatim>\<open>currentTask.getStore()\<close> is a node of the runner's forest or \<^verbatim>\<open>undefined\<close>. A node
  is addressed by its path: the index of its root, then the index of the child at each
  level. Every node keeps the runner it was created with in \<^verbatim>\<open>_owner\<close>, and the only
  runner ever created is the one in \<^verbatim>\<open>currentRunner\<close>, so the redraws a node requests
  go to that runner.
\<close>

fun at_path :: "nat list \<Rightarrow> (Task \<Rightarrow> Task \<times> nat) \<Rightarrow> Task \<Rightarrow> Task \<times> nat" where
  "at_path [] f t = f t"
| "at_path (i # path) f t =
     (case t of Task d s subs lg m c p \<Rightarrow>
        (if i < length subs
         then (case at_path path f (subs ! i) of
                 (t', n) \<Rightarrow> (Task d s (subs[i := t']) lg m c p, n))
         else (t, 0)))"

text \<open>The node a path leads to, if there is one.\<close>

fun task_at :: "nat list \<Rightarrow> Task \<Rightarrow> Task option" where
  "task_at [] t = Some t"
| "task_at (i # path) t =
     (if i < length (subTasks t) then task_at path (subTasks t ! i) else None)"

definition current_task :: "nat list option \<Rightarrow> World \<Rightarrow> Task option" where
  "current_task store w =
     (case store of
        None \<Rightarrow> None
      | Some [] \<Rightarrow> None
      | Some (i # path) \<Rightarrow>
          (case currentRunner w of
             None \<Rightarrow> None
           | Some r \<Rightarrow> if i < length (roots r) then task_at path (roots r ! i) else None))"

text \<open>
  A method call on the ambient task: the state with the node updated, and the number of
  redraws the call requests. Without an ambient task nothing happens.
\<close>

definition on_current :: "nat list option \<Rightarrow> (Task \<Rightarrow> Task \<times> nat) \<Rightarrow> World \<Rightarrow> World \<times> nat" where
  "on_current store f w =
     (case store of
        None \<Rightarrow> (w, 0)
      | Some [] \<Rightarrow> (w, 0)
      | Some (i # path) \<Rightarrow>
          (case currentRunner w of
             None \<Rightarrow> (w, 0)
           | Some r \<Rightarrow>
               (if i < length (roots r)
                then (case at_path path f (roots r ! i) of
                        (t', n) \<Rightarrow> (w\<lparr>currentRunner := Some (r\<lparr>roots := (roots r)[i := t']\<rparr>)\<rparr>, n))
                else (w, 0))))"

definition with_current :: "nat list option \<Rightarrow> (Task \<Rightarrow> Task \<times> nat) \<Rightarrow> World \<Rightarrow> World" where
  "with_current store f w = (case on_current store f w of (w', n) \<Rightarrow> (requestRerender ^^ n) w')"

text \<open>The exported \<^verbatim>\<open>setMessage\<close> and \<^verbatim>\<open>setStatus\<close>.\<close>

definition setMessage :: "Env \<Rightarrow> jsstring \<Rightarrow> nat list option \<Rightarrow> World \<Rightarrow> World" where
  "setMessage env msg store w = with_current store (addMessage env msg) w"

definition setStatus :: "Status \<Rightarrow> nat list option \<Rightarrow> World \<Rightarrow> World" where
  "setStatus stat store w = with_current store (set_status stat) w"

text \<open>
  A status or message mutation, made with a given ambient task; a sequence of them made
  one after the other with no turn of the event loop in between; and the number of
  redraws the sequence requests.
\<close>

datatype mutation = SetStatus Status | SetMessage jsstring

fun mutation_call :: "Env \<Rightarrow> mutation \<Rightarrow> Task \<Rightarrow> Task \<times> nat" where
  "mutation_call env (SetStatus stat) = set_status stat"
| "mutation_call env (SetMessage msg) = addMessage env msg"

fun mutate :: "Env \<Rightarrow> (nat list option \<times> mutation) list \<Rightarrow> World \<Rightarrow> World" where
  "mutate env [] w = w"
| "mutate env ((store, SetStatus stat) # ms) w = mutate env ms (setStatus stat store w)"
| "mutate env ((store, SetMessage msg) # ms) w = mutate env ms (setMessage env msg store w)"

fun requested :: "Env \<Rightarrow> (nat list option \<times> mutation) list \<Rightarrow> World \<Rightarrow> nat" where
  "requested env [] w = 0"
| "requested env ((store, mu) # ms) w =
     snd (on_current store (mutation_call env mu) w)
     + requested env ms (with_current store (mutation_call env mu) w)"

text \<open>A sequence of \<^verbatim>\<open>setMessage\<close> calls on one node: which of them requested a redraw.\<close>

fun addMessages :: "Env \<Rightarrow> jsstring list \<Rightarrow> Task \<Rightarrow> Task \<times> nat list" where
  "addMessages env [] t = (t, [])"
| "addMessages env (msg # msgs) t =
     (case addMessage env msg t of (t1, n) \<Rightarrow>
      case addMessages env msgs t1 of (t2, ns) \<Rightarrow> (t2, n # ns))"

text \<open>
  The two states of the runner's redraw scheduling: no redraw scheduled (the handle
  \<^verbatim>\<open>_rerender\<close> is unset and no callback is queued), and one redraw scheduled (the
  handle is set and its callback is the one queued).
\<close>

definition redraw_idle :: "World \<Rightarrow> bool" where
  "redraw_idle w =
     (case currentRunner w of
        None \<Rightarrow> False
      | Some r \<Rightarrow> rerender r = None \<and> immediates w = [])"

definition redraw_scheduled :: "World \<Rightarrow> bool" where
  "redraw_scheduled w =
     (case currentRunner w of
        None \<Rightarrow> False
      | Some r \<Rightarrow> (case rerender r of None \<Rightarrow> False | Some h \<Rightarrow> immediates w = [h]))"

text \<open>
  An operation that has started, has done nothing to its node yet and has not settled;
  and the state while a first top-level \<^verbatim>\<open>run\<close> of such an operation is in progress:
  the runner has been created and the new node pushed on its roots.
\<close>

definition pending :: "'a operation" where
  "pending owner = (owner, 0, Unsettled)"

definition one_root :: "jsstring \<Rightarrow> World" where
  "one_root d = push_root (newTask d) (new_Runner initial)"

text \<open>
  The state after a first top-level \<^verbatim>\<open>run\<close>, of an operation that logs one line and
  resolves, has settled and the runner has drained.
\<close>

definition drained :: World where
  "drained = fst (run (colour_terminal None) (js ''first'') (logging (js ''hello'')) initial)"

section \<open>Promises in time\<close>

text \<open>
  \<^verbatim>\<open>wait()\<close> and \<^verbatim>\<open>performTask\<close> read \<^verbatim>\<open>_subTasks\<close> at the moment an \<^verbatim>\<open>await\<close>
  returns, while children are still being appended. To say which children a call
  sees, a promise is described by when it settles: never, fulfilled at a time, or
  rejected at a time with an error message. Time is the position in the order of the
  program's steps. A node is described by when its operation settles and by its
  children with the times they are appended to \<^verbatim>\<open>_subTasks\<close>, in creation order.
\<close>

datatype settled = Never | Resolved nat | Failed nat jsstring

text \<open>\<^verbatim>\<open>await p\<close> started at time \<open>t0\<close>: execution continues when \<open>p\<close> has settled.\<close>

fun await_at :: "nat \<Rightarrow> settled \<Rightarrow> settled" where
  "await_at t0 Never = Never"
| "await_at t0 (Resolved t) = Resolved (max t0 t)"
| "await_at t0 (Failed t e) = Failed (max t0 t) e"

text \<open>
  \<^verbatim>\<open>Promise.all\<close> of two promises, then of a list, called at time \<open>t0\<close>: rejected with
  the earliest rejection, otherwise fulfilled when the last one is.
\<close>

fun both :: "settled \<Rightarrow> settled \<Rightarrow> settled" where
  "both (Failed t e) (Failed t' e') = (if t \<le> t' then Failed t e else Failed t' e')"
| "both (Failed t e) q = Failed t e"
| "both p (Failed t' e') = Failed t' e'"
| "both Never q = Never"
| "both p Never = Never"
| "both (Resolved t) (Resolved t') = Resolved (max t t')"

fun all_at :: "nat \<Rightarrow> settled list \<Rightarrow> settled" where
  "all_at t0 [] = Resolved t0"
| "all_at t0 (p # ps) = both (await_at t0 p) (all_at t0 ps)"

datatype TimedTask = TimedTask (operation: settled) (children: "(nat \<times> TimedTask) list")

text \<open>\<^verbatim>\<open>this._subTasks\<close> read at time \<open>t\<close>: the children appended by then.\<close>

definition snapshot :: "nat \<Rightarrow> (nat \<times> TimedTask) list \<Rightarrow> TimedTask list" where
  "snapshot t cs = map snd (filter (\<lambda>(created, c). created \<le> t) cs)"

lemma child_size:
  "(a, c) \<in> set cs \<Longrightarrow> size c < Suc (size_list (size_prod (\<lambda>_. 0) size) cs)"
  by (induction cs) auto

lemma snapshot_size:
  "c \<in> set (snapshot t cs) \<Longrightarrow> size c < Suc (size_list (size_prod (\<lambda>_. 0) size) cs)"
  by (auto simp: snapshot_def dest: child_size)

text \<open>
  \<^verbatim>\<open>wait()\<close> called at time \<open>t0\<close>. The inner \<^verbatim>\<open>case\<close> is \<^verbatim>\<open>_completion\<close>, the promise
  of \<^verbatim>\<open>performTask\<close>: the operation, then \<^verbatim>\<open>Promise.all\<close> over the \<^verbatim>\<open>wait()\<close> of the
  children present when the operation returns. The outer one is \<^verbatim>\<open>wait()\<close> itself:
  \<^verbatim>\<open>await this._completion\<close>, then \<^verbatim>\<open>Promise.all\<close> over the \<^verbatim>\<open>wait()\<close> of the children
  present at that moment.
\<close>

function wait_at :: "nat \<Rightarrow> TimedTask \<Rightarrow> settled" where
  "wait_at t0 (TimedTask op cs) =
     (case await_at t0
             (case op of
                Resolved t \<Rightarrow> all_at t (map (wait_at t) (snapshot t cs))
              | other \<Rightarrow> other) of
        Resolved ts \<Rightarrow> all_at ts (map (wait_at ts) (snapshot ts cs))
      | other \<Rightarrow> other)"
  by pat_completeness auto
termination
  by (relation "measure (\<lambda>(t0, n). size n)") (auto dest: snapshot_size)

declare wait_at.simps [simp del]

text \<open>When \<^verbatim>\<open>_completion\<close>, the promise \<^verbatim>\<open>performTask\<close> returns, settles.\<close>

definition performTask_at :: "TimedTask \<Rightarrow> settled" where
  "performTask_at n =
     (case operation n of
        Resolved t \<Rightarrow> all_at t (map (wait_at t) (snapshot t (children n)))
      | other \<Rightarrow> other)"

text \<open>
  A node whose operation creates a first child and returns at time 1, and in whose
  context two more children are created later, at times 5 and 15. The children's
  operations resolve at times 10, 20 and 30.
\<close>

definition late_child_example :: TimedTask where
  "late_child_example =
     TimedTask (Resolved 1)
       [(0, TimedTask (Resolved 10) []),
        (5, TimedTask (Resolved 20) []),
        (15, TimedTask (Resolved 30) [])]"

section \<open>Status escalation\<close>

lemma status_set_status:
  "status (fst (set_status s t)) =
     (if statusStrength s > statusStrength (status t) then s else status t)"
  by (cases t) simp

lemma statusStrength_inj: "statusStrength a = statusStrength b \<Longrightarrow> a = b"
  by (cases a; cases b) simp_all

lemma strength_set_status:
  "statusStrength (status (fst (set_status s t))) = max (statusStrength (status t)) (statusStrength s)"
  by (cases t) (simp add: max_def)

lemma strength_set_statuses:
  "statusStrength (status (set_statuses ss t)) =
     fold max (map statusStrength ss) (statusStrength (status t))"
  by (induction ss arbitrary: t) (simp_all add: strength_set_status max.commute)

lemma fold_max_Max: "fold max xs (a::nat) = Max (insert a (set xs))"
  by (metis Max.set_eq_fold list.simps(15))

text \<open>
  C1. For every node and every sequence of \<^verbatim>\<open>setStatus\<close> calls on it, the rank of the
  final status is the highest rank among the status the node had and the statuses set,
  and the final status is one of them (the ranking is injective, so it is the
  highest-ranked one); the result does not depend on the order of the calls; and a call
  whose argument does not rank strictly higher than the current status changes nothing
  and requests no redraw. After \<^verbatim>\<open>setStatus('fail')\<close> then \<^verbatim>\<open>setStatus('warn')\<close> on a
  new node the status is \<^verbatim>\<open>fail\<close>.
\<close>

theorem set_status_highest_rank:
  "statusStrength (status (set_statuses ss t)) =
     Max (statusStrength ` (insert (status t) (set ss)))
   \<and> status (set_statuses ss t) \<in> insert (status t) (set ss)
   \<and> (set ss = set ss' \<longrightarrow> status (set_statuses ss t) = status (set_statuses ss' t))
   \<and> (statusStrength s \<le> statusStrength (status t) \<longrightarrow> set_status s t = (t, 0))
   \<and> status (set_statuses [Fail, Warn] (newTask d)) = Fail"
proof -
  have rank: "statusStrength (status (set_statuses xs t)) =
      Max (statusStrength ` (insert (status t) (set xs)))" for xs
    by (simp add: strength_set_statuses fold_max_Max)
  have mem: "status (set_statuses xs u) \<in> insert (status u) (set xs)" for xs u
  proof (induction xs arbitrary: u)
    case Nil
    show ?case by simp
  next
    case (Cons x xs)
    have "status (set_statuses xs (fst (set_status x u)))
        \<in> insert (status (fst (set_status x u))) (set xs)"
      by (rule Cons.IH)
    then show ?case
      by (auto simp: status_set_status split: if_splits)
  qed
  have order: "status (set_statuses ss t) = status (set_statuses ss' t)" if "set ss = set ss'"
    by (rule statusStrength_inj) (simp add: rank that)
  have noop: "set_status s t = (t, 0)" if "statusStrength s \<le> statusStrength (status t)"
    using that by (cases t) simp
  have ex: "status (set_statuses [Fail, Warn] (newTask d)) = Fail"
    by (simp add: newTask_def)
  from rank mem order noop ex show ?thesis by blast
qed

theorem set_status_highest_rank_witness:
  "set [Warn, Skip, Done] = set [Skip, Done, Warn, Done]
   \<and> statusStrength Done \<le> statusStrength (status (Task [] Warn [] [] [] 0 Unsettled))
   \<and> status (set_statuses [Warn, Skip, Done] (newTask [])) = Skip
   \<and> status (set_statuses [Skip, Done, Warn, Done] (newTask [])) = Skip
   \<and> set_status Done (Task [] Warn [] [] [] 0 Unsettled) = (Task [] Warn [] [] [] 0 Unsettled, 0)"
  using set_status_highest_rank [of "[Warn, Skip, Done]" "newTask []" "[Skip, Done, Warn, Done]"
      Done "[]"]
    set_status_highest_rank [of "[]" "Task [] Warn [] [] [] 0 Unsettled" "[]" Done "[]"]
  by (auto simp: newTask_def)

section \<open>Aggregation of the children's statuses\<close>

lemma status_update_set: "status (fst (set_status s t)) = spec_escalate (status t) s"
  by (cases t) (simp add: spec_escalate_def)

lemma set_status_frame:
  "description (fst (set_status s t)) = description t"
  "subTasks (fst (set_status s t)) = subTasks t"
  "logs (fst (set_status s t)) = logs t"
  "message (fst (set_status s t)) = message t"
  "msgCount (fst (set_status s t)) = msgCount t"
  "completion (fst (set_status s t)) = completion t"
  by (cases t; simp)+

lemma list_ex_status: "list_ex (\<lambda>c. status c = s) ts \<longleftrightarrow> s \<in> status ` set ts"
  by (auto simp: list_ex_iff)

text \<open>
  C2. On a node with at least one child, \<^verbatim>\<open>update()\<close> escalates the status to
  \<^verbatim>\<open>fail\<close> if some child is \<^verbatim>\<open>fail\<close>; otherwise to \<^verbatim>\<open>warn\<close> if some child is
  \<^verbatim>\<open>warn\<close>; otherwise to \<^verbatim>\<open>done\<close> if no child is pending; otherwise it changes
  nothing and requests no redraw. Escalating is the specification's \<open>spec_escalate\<close>. So a
  parent that is pending, done or warn with children in states {done, warn} becomes
  \<^verbatim>\<open>warn\<close>; a parent that is not skip with children in states {done, fail} becomes
  \<^verbatim>\<open>fail\<close>; a pending parent with children in states {pending, done} stays pending.
  No other field of the node changes.
\<close>

theorem update_aggregates:
  assumes "subTasks t \<noteq> []"
  shows "(Fail \<in> status ` set (subTasks t) \<longrightarrow>
            status (fst (update t)) = spec_escalate (status t) Fail)
       \<and> (Fail \<notin> status ` set (subTasks t) \<and> Warn \<in> status ` set (subTasks t) \<longrightarrow>
            status (fst (update t)) = spec_escalate (status t) Warn)
       \<and> (Fail \<notin> status ` set (subTasks t) \<and> Warn \<notin> status ` set (subTasks t)
            \<and> Pending \<notin> status ` set (subTasks t) \<longrightarrow>
            status (fst (update t)) = spec_escalate (status t) Done)
       \<and> (Fail \<notin> status ` set (subTasks t) \<and> Warn \<notin> status ` set (subTasks t)
            \<and> Pending \<in> status ` set (subTasks t) \<longrightarrow> update t = (t, 0))
       \<and> (status ` set (subTasks t) = {Done, Warn} \<and> status t \<in> {Pending, Done, Warn} \<longrightarrow>
            status (fst (update t)) = Warn)
       \<and> (status ` set (subTasks t) = {Done, Fail} \<and> status t \<noteq> Skip \<longrightarrow>
            status (fst (update t)) = Fail)
       \<and> (status ` set (subTasks t) = {Pending, Done} \<and> status t = Pending \<longrightarrow>
            status (fst (update t)) = Pending)
       \<and> description (fst (update t)) = description t
       \<and> subTasks (fst (update t)) = subTasks t
       \<and> logs (fst (update t)) = logs t
       \<and> message (fst (update t)) = message t
       \<and> msgCount (fst (update t)) = msgCount t"
proof -
  let ?S = "status ` set (subTasks t)"
  have fail: "status (fst (update t)) = spec_escalate (status t) Fail" if "Fail \<in> ?S"
    using that assms by (simp add: update_def list_ex_status status_update_set)
  have warn: "status (fst (update t)) = spec_escalate (status t) Warn" if "Fail \<notin> ?S" "Warn \<in> ?S"
    using that assms by (simp add: update_def list_ex_status status_update_set)
  have settled: "status (fst (update t)) = spec_escalate (status t) Done"
    if "Fail \<notin> ?S" "Warn \<notin> ?S" "Pending \<notin> ?S"
    using that assms by (simp add: update_def list_ex_status status_update_set)
  have waiting: "update t = (t, 0)" if "Fail \<notin> ?S" "Warn \<notin> ?S" "Pending \<in> ?S"
    using that assms by (simp add: update_def list_ex_status)
  have done_warn: "status (fst (update t)) = Warn"
    if "?S = {Done, Warn}" "status t \<in> {Pending, Done, Warn}"
  proof -
    have "status (fst (update t)) = spec_escalate (status t) Warn"
      using that(1) by (intro warn) simp_all
    with that(2) show ?thesis by (auto simp: spec_escalate_def)
  qed
  have done_fail: "status (fst (update t)) = Fail" if "?S = {Done, Fail}" "status t \<noteq> Skip"
  proof -
    have "status (fst (update t)) = spec_escalate (status t) Fail"
      using that(1) by (intro fail) simp
    with that(2) show ?thesis by (cases "status t") (simp_all add: spec_escalate_def)
  qed
  have pending_done: "status (fst (update t)) = Pending"
    if "?S = {Pending, Done}" "status t = Pending"
  proof -
    have "update t = (t, 0)"
      using that(1) by (intro waiting) simp_all
    with that(2) show ?thesis by simp
  qed
  have frame: "description (fst (update t)) = description t"
    "subTasks (fst (update t)) = subTasks t" "logs (fst (update t)) = logs t"
    "message (fst (update t)) = message t" "msgCount (fst (update t)) = msgCount t"
    by (simp_all add: update_def set_status_frame)
  show ?thesis
    using fail warn settled waiting done_warn done_fail pending_done frame by blast
qed

theorem update_aggregates_witness:
  "subTasks (parent_with Pending [Pending, Done]) \<noteq> []
   \<and> status ` set (subTasks (parent_with Pending [Pending, Done])) = {Pending, Done}
   \<and> status (fst (update (parent_with Pending [Pending, Done]))) = Pending
   \<and> status ` set (subTasks (parent_with Done [Done, Warn])) = {Done, Warn}
   \<and> status (fst (update (parent_with Done [Done, Warn]))) = Warn
   \<and> status ` set (subTasks (parent_with Warn [Done, Fail])) = {Done, Fail}
   \<and> status (fst (update (parent_with Warn [Done, Fail]))) = Fail"
proof -
  have ne: "subTasks (parent_with own (c # cs)) \<noteq> []" for own c cs
    by (simp add: parent_with_def)
  have st: "status ` set (subTasks (parent_with own cs)) = set cs" for own cs
    by (simp add: parent_with_def image_image leaf_def)
  have own: "status (parent_with own cs) = own" for own cs
    by (simp add: parent_with_def)
  have "status (fst (update (parent_with Pending [Pending, Done]))) = Pending"
    using update_aggregates [OF ne, of Pending Pending "[Done]"] by (simp add: st own spec_escalate_def)
  moreover have "status (fst (update (parent_with Done [Done, Warn]))) = Warn"
    using update_aggregates [OF ne, of Done Done "[Warn]"] by (simp add: st own spec_escalate_def)
  moreover have "status (fst (update (parent_with Warn [Done, Fail]))) = Fail"
    using update_aggregates [OF ne, of Warn Done "[Fail]"] by (simp add: st own spec_escalate_def)
  ultimately show ?thesis
    by (simp add: ne st)
qed

lemma strength_spec_escalate:
  "statusStrength (spec_escalate a b) = max (statusStrength a) (statusStrength b)"
  by (simp add: spec_escalate_def max_def)

lemma strength_spec_worst:
  "statusStrength (spec_worst own cs) = Max (statusStrength ` insert own (set cs))"
proof -
  have "statusStrength (fold (\<lambda>c acc. spec_escalate acc c) cs own)
      = fold max (map statusStrength cs) (statusStrength own)"
    by (induction cs arbitrary: own) (simp_all add: strength_spec_escalate max.commute)
  then show ?thesis
    by (simp add: spec_worst_def fold_max_Max)
qed

lemma strength_skip_as_done_le: "statusStrength (skip_as_done s) \<le> 3"
  by (cases s) (simp_all add: skip_as_done_def)

lemma Max_children:
  assumes "finite A" "k \<in> A" "\<forall>x\<in>A. x \<le> (k::nat)"
  shows "Max (insert a A) = max a k"
proof -
  have "Max A = k" using assms by (intro Max_eqI) auto
  moreover have "A \<noteq> {}" using assms by auto
  ultimately show ?thesis using assms(1) by simp
qed

lemma worst_children:
  assumes "k \<in> statusStrength ` skip_as_done ` status ` set ts"
    and "\<forall>c\<in>set ts. statusStrength (skip_as_done (status c)) \<le> k"
  shows "statusStrength (spec_worst own (map (skip_as_done \<circ> status) ts)) = max (statusStrength own) k"
proof -
  let ?A = "statusStrength ` skip_as_done ` status ` set ts"
  have "statusStrength (spec_worst own (map (skip_as_done \<circ> status) ts))
      = Max (insert (statusStrength own) ?A)"
    by (simp add: strength_spec_worst image_comp)
  also have "\<dots> = max (statusStrength own) k"
    using assms by (intro Max_children) auto
  finally show ?thesis .
qed

text \<open>
  C3, as the code has it. After \<^verbatim>\<open>update()\<close> on a node with at least one child, the
  node's status is the worst, by rank, of its own status and its children's statuses
  with a child's \<^verbatim>\<open>skip\<close> counted as \<^verbatim>\<open>done\<close>, unless a child is still pending while
  no child is \<^verbatim>\<open>fail\<close> or \<^verbatim>\<open>warn\<close>: then the status is left as it is. A pending parent
  whose only child is \<^verbatim>\<open>skip\<close> becomes \<^verbatim>\<open>done\<close>.
\<close>

theorem update_worst_skip_as_done:
  assumes "subTasks t \<noteq> []"
  shows "(Pending \<notin> status ` set (subTasks t) \<or> Fail \<in> status ` set (subTasks t)
            \<or> Warn \<in> status ` set (subTasks t) \<longrightarrow>
          status (fst (update t)) =
            spec_worst (status t) (map (skip_as_done \<circ> status) (subTasks t)))
       \<and> (Pending \<in> status ` set (subTasks t) \<and> Fail \<notin> status ` set (subTasks t)
            \<and> Warn \<notin> status ` set (subTasks t) \<longrightarrow>
          status (fst (update t)) = status t)
       \<and> (status t = Pending \<and> map status (subTasks t) = [Skip] \<longrightarrow>
          status (fst (update t)) = Done)"
proof -
  let ?S = "status ` set (subTasks t)"
  let ?w = "spec_worst (status t) (map (skip_as_done \<circ> status) (subTasks t))"
  have le3: "\<forall>c\<in>set (subTasks t). statusStrength (skip_as_done (status c)) \<le> 3"
    by (simp add: strength_skip_as_done_le)
  have fail: "status (fst (update t)) = ?w" if "Fail \<in> ?S"
  proof (rule statusStrength_inj)
    have "statusStrength Fail \<in> statusStrength ` skip_as_done ` ?S"
      using that by (force simp: skip_as_done_def)
    then have "statusStrength ?w = max (statusStrength (status t)) 3"
      using le3 by (intro worst_children) simp_all
    moreover have "status (fst (update t)) = spec_escalate (status t) Fail"
      using that assms by (simp add: update_def list_ex_status status_update_set)
    ultimately show "statusStrength (status (fst (update t))) = statusStrength ?w"
      by (simp add: strength_spec_escalate)
  qed
  have warn: "status (fst (update t)) = ?w" if "Fail \<notin> ?S" "Warn \<in> ?S"
  proof (rule statusStrength_inj)
    have "\<forall>c\<in>set (subTasks t). statusStrength (skip_as_done (status c)) \<le> 2"
    proof
      fix c assume "c \<in> set (subTasks t)"
      then have "status c \<noteq> Fail" using that(1) by force
      then show "statusStrength (skip_as_done (status c)) \<le> 2"
        by (cases "status c") (simp_all add: skip_as_done_def)
    qed
    moreover have "statusStrength Warn \<in> statusStrength ` skip_as_done ` ?S"
      using that(2) by (force simp: skip_as_done_def)
    ultimately have "statusStrength ?w = max (statusStrength (status t)) 2"
      by (intro worst_children) simp_all
    moreover have "status (fst (update t)) = spec_escalate (status t) Warn"
      using that assms by (simp add: update_def list_ex_status status_update_set)
    ultimately show "statusStrength (status (fst (update t))) = statusStrength ?w"
      by (simp add: strength_spec_escalate)
  qed
  have settled: "status (fst (update t)) = ?w"
    if "Fail \<notin> ?S" "Warn \<notin> ?S" "Pending \<notin> ?S"
  proof (rule statusStrength_inj)
    have all: "\<forall>c\<in>set (subTasks t). skip_as_done (status c) = Done"
    proof
      fix c assume "c \<in> set (subTasks t)"
      then have "status c \<noteq> Fail" "status c \<noteq> Warn" "status c \<noteq> Pending"
        using that by force+
      then show "skip_as_done (status c) = Done"
        by (cases "status c") (simp_all add: skip_as_done_def)
    qed
    obtain c where c: "c \<in> set (subTasks t)"
      using assms by (cases "subTasks t") auto
    have "statusStrength Done \<in> statusStrength ` skip_as_done ` ?S"
      using all c by force
    then have "statusStrength ?w = max (statusStrength (status t)) 1"
      using all by (intro worst_children) simp_all
    moreover have "status (fst (update t)) = spec_escalate (status t) Done"
      using that assms by (simp add: update_def list_ex_status status_update_set)
    ultimately show "statusStrength (status (fst (update t))) = statusStrength ?w"
      by (simp add: strength_spec_escalate)
  qed
  have waiting: "status (fst (update t)) = status t"
    if "Pending \<in> ?S" "Fail \<notin> ?S" "Warn \<notin> ?S"
    using that assms by (simp add: update_def list_ex_status)
  have only_skip: "status (fst (update t)) = Done"
    if "status t = Pending" "map status (subTasks t) = [Skip]"
  proof -
    have "?S = {Skip}" using that(2) by (metis list.set_map list.simps(15) empty_set)
    then show ?thesis
      using that(1) assms by (simp add: update_def list_ex_status status_update_set spec_escalate_def)
  qed
  show ?thesis
  proof (intro conjI impI)
    assume "Pending \<notin> ?S \<or> Fail \<in> ?S \<or> Warn \<in> ?S"
    then show "status (fst (update t)) = ?w"
      using fail warn settled by (cases "Fail \<in> ?S"; cases "Warn \<in> ?S") auto
  next
    assume "Pending \<in> ?S \<and> Fail \<notin> ?S \<and> Warn \<notin> ?S"
    then show "status (fst (update t)) = status t"
      using waiting by simp
  next
    assume "status t = Pending \<and> map status (subTasks t) = [Skip]"
    then show "status (fst (update t)) = Done"
      using only_skip by simp
  qed
qed

theorem update_worst_skip_as_done_witness:
  "subTasks (parent_with Pending [Skip]) \<noteq> []
   \<and> Pending \<notin> status ` set (subTasks (parent_with Pending [Skip]))
   \<and> status (parent_with Pending [Skip]) = Pending
   \<and> map status (subTasks (parent_with Pending [Skip])) = [Skip]
   \<and> status (fst (update (parent_with Pending [Skip]))) = Done
   \<and> Pending \<in> status ` set (subTasks (parent_with Done [Pending, Skip]))
   \<and> Fail \<notin> status ` set (subTasks (parent_with Done [Pending, Skip]))
   \<and> Warn \<notin> status ` set (subTasks (parent_with Done [Pending, Skip]))
   \<and> status (fst (update (parent_with Done [Pending, Skip]))) = Done"
proof -
  have ne: "subTasks (parent_with own (c # cs)) \<noteq> []" for own c cs
    by (simp add: parent_with_def)
  have st: "status ` set (subTasks (parent_with own cs)) = set cs" for own cs
    by (simp add: parent_with_def image_image leaf_def)
  have ms: "map status (subTasks (parent_with own cs)) = cs" for own cs
    by (simp add: parent_with_def leaf_def comp_def)
  have own: "status (parent_with own cs) = own" for own cs
    by (simp add: parent_with_def)
  have "status (fst (update (parent_with Pending [Skip]))) = Done"
    using update_worst_skip_as_done [OF ne, of Pending Skip "[]"] by (simp add: ms own)
  moreover have "status (fst (update (parent_with Done [Pending, Skip]))) = Done"
    using update_worst_skip_as_done [OF ne, of Done Pending "[Skip]"] by (simp add: st own)
  ultimately show ?thesis
    by (simp add: ne st ms own)
qed

text \<open>
  C3, as the specification states it, fails: a pending parent whose only child has
  settled with \<^verbatim>\<open>skip\<close> is \<^verbatim>\<open>done\<close> after \<^verbatim>\<open>update()\<close>, while the worst status by
  rank among the parent's and the child's is \<^verbatim>\<open>skip\<close>.
\<close>

theorem update_skip_child_counterexample:
  "status (parent_with Pending [Skip]) = Pending
   \<and> map status (subTasks (parent_with Pending [Skip])) = [Skip]
   \<and> status (fst (update (parent_with Pending [Skip]))) = Done
   \<and> spec_worst Pending [Skip] = Skip"
  by (simp add: update_def spec_worst_def spec_escalate_def parent_with_def leaf_def)

section \<open>Message compression\<close>


lemma commonLen_loop_lcp:
  "result \<le> min (length a) (length b) \<Longrightarrow>
   commonLen_loop a b (min (length a) (length b)) result =
     result + length (longest_common_prefix (drop result a) (drop result b))"
proof (induction a b "min (length a) (length b)" result rule: commonLen_loop.induct)
  case (1 a b result)
  show ?case
  proof (cases "result < min (length a) (length b)")
    case True
    then have da: "drop result a = a ! result # drop (Suc result) a"
      and db: "drop result b = b ! result # drop (Suc result) b"
      by (simp_all add: Cons_nth_drop_Suc)
    show ?thesis
    proof (cases "a ! result = b ! result")
      case eq: True
      have "commonLen_loop a b (min (length a) (length b)) (result + 1) =
          result + 1 + length (longest_common_prefix (drop (result + 1) a) (drop (result + 1) b))"
        using True eq by (intro "1.hyps") simp_all
      then show ?thesis
        using True eq by (subst commonLen_loop.simps) (simp add: da db)
    next
      case False
      then show ?thesis
        using True by (subst commonLen_loop.simps) (simp add: da db)
    qed
  next
    case False
    with "1.prems" have "result = min (length a) (length b)" by linarith
    then have "drop result a = [] \<or> drop result b = []"
      by (auto simp: min_def split: if_splits)
    then have "longest_common_prefix (drop result a) (drop result b) = []"
      by (metis longest_common_prefix.simps(2) longest_common_prefix.simps(3))
    moreover have "commonLen_loop a b (min (length a) (length b)) result = result"
      using False by (subst commonLen_loop.simps) auto
    ultimately show ?thesis by simp
  qed
qed

lemma commonLen_lcp: "commonLen a b = length (longest_common_prefix a b)"
  using commonLen_loop_lcp [of 0 a b] by (simp add: commonLen_def)

lemma take_commonLen: "take (commonLen a b) a = longest_common_prefix a b"
proof -
  obtain zs where "a = longest_common_prefix a b @ zs"
    using longest_common_prefix_prefix1 [of a b] by (auto simp: prefix_def)
  then show ?thesis
    by (metis append_eq_conv_conj commonLen_lcp)
qed

lemma toString_2: "toString 2 = js ''2''"
  by (simp add: toString.simps js_def)

lemma lcp_file: "longest_common_prefix (js ''file1.txt'') (js ''file2.txt'') = js ''file''"
  by (simp add: js_def)

text \<open>
  C4, as the code has it. On a node with no prior message, \<^verbatim>\<open>setMessage("file1.txt")\<close>
  then \<^verbatim>\<open>setMessage("file2.txt")\<close> leaves the stored message
  \<^verbatim>\<open>"file \<dots> [2]"\<close>: the longest common prefix of the previous and the new message,
  then a space, the ellipsis, a space and the bracketed count of merged messages. In
  general a message merged into a non-empty one leaves the longest common prefix of the
  two followed by that suffix. The environment's \<open>stripAnsi\<close> is assumed to leave the
  two file names, which have no styling codes, as they are.
\<close>

theorem second_message_keeps_common_prefix:
  assumes "stripAnsi env (js ''file1.txt'') = js ''file1.txt''"
    and "stripAnsi env (js ''file2.txt'') = js ''file2.txt''"
    and "message t = []" and "msgCount t = 0"
  shows "message (fst (addMessage env (js ''file2.txt'') (fst (addMessage env (js ''file1.txt'') t))))
           = js ''file'' @ js '' '' @ [ellipsis] @ js '' [2]''
       \<and> msgCount (fst (addMessage env (js ''file2.txt'') (fst (addMessage env (js ''file1.txt'') t)))) = 2
       \<and> (message u \<noteq> [] \<longrightarrow>
            message (fst (addMessage env msg u)) =
              longest_common_prefix (message u) (stripAnsi env msg)
              @ js '' '' @ [ellipsis] @ js '' ['' @ toString (msgCount u + 1) @ js '']'')"
proof -
  obtain d s subs lg m c p where t: "t = Task d s subs lg m c p" by (cases t)
  obtain d' s' subs' lg' m' c' p' where u: "u = Task d' s' subs' lg' m' c' p'" by (cases u)
  have nonempty: "js ''file1.txt'' \<noteq> []" by (simp add: js_def)
  have "message (fst (addMessage env (js ''file2.txt'') (fst (addMessage env (js ''file1.txt'') t))))
      = combineStrings (js ''file1.txt'') (js ''file2.txt'') 2"
    using assms nonempty by (simp add: t numeral_2_eq_2)
  also have "\<dots> = js ''file'' @ js '' '' @ [ellipsis] @ js '' [2]''"
    by (simp add: combineStrings_def take_commonLen lcp_file toString_2) (simp add: js_def)
  finally have first: "message (fst (addMessage env (js ''file2.txt'')
      (fst (addMessage env (js ''file1.txt'') t)))) = js ''file'' @ js '' '' @ [ellipsis] @ js '' [2]''" .
  have count: "msgCount (fst (addMessage env (js ''file2.txt'')
      (fst (addMessage env (js ''file1.txt'') t)))) = 2"
    using assms nonempty by (simp add: t)
  have general: "message (fst (addMessage env msg u)) =
      longest_common_prefix (message u) (stripAnsi env msg)
      @ js '' '' @ [ellipsis] @ js '' ['' @ toString (msgCount u + 1) @ js '']''"
    if "message u \<noteq> []"
    using that by (simp add: u combineStrings_def take_commonLen) (simp add: js_def)
  from first count general show ?thesis by simp
qed

theorem second_message_keeps_common_prefix_witness:
  "stripAnsi (colour_terminal None) (js ''file1.txt'') = js ''file1.txt''
   \<and> stripAnsi (colour_terminal None) (js ''file2.txt'') = js ''file2.txt''
   \<and> message (newTask (js ''copy'')) = [] \<and> msgCount (newTask (js ''copy'')) = 0
   \<and> message (Task [] Done [] [] (js ''a'') 1 Unsettled) \<noteq> []
   \<and> message (fst (addMessage (colour_terminal None) (js ''b'') (Task [] Done [] [] (js ''a'') 1 Unsettled)))
       = js '' '' @ [ellipsis] @ js '' [2]''
   \<and> message (fst (addMessage (colour_terminal None) (js ''file2.txt'')
        (fst (addMessage (colour_terminal None) (js ''file1.txt'') (newTask (js ''copy''))))))
       = js ''file'' @ js '' '' @ [ellipsis] @ js '' [2]''"
proof -
  have s1: "stripAnsi (colour_terminal None) (js ''file1.txt'') = js ''file1.txt''"
    by (simp add: colour_terminal_def js_def ESC_def)
  have s2: "stripAnsi (colour_terminal None) (js ''file2.txt'') = js ''file2.txt''"
    by (simp add: colour_terminal_def js_def ESC_def)
  have m: "message (newTask (js ''copy'')) = []" and c: "msgCount (newTask (js ''copy'')) = 0"
    by (simp_all add: newTask_def)
  have u: "message (Task [] Done [] [] (js ''a'') 1 Unsettled) \<noteq> []"
    by (simp add: js_def)
  have sb: "stripAnsi (colour_terminal None) (js ''b'') = js ''b''"
    by (simp add: colour_terminal_def js_def ESC_def)
  have lcp: "longest_common_prefix (js ''a'') (js ''b'') = []"
    by (simp add: js_def)
  have "message (fst (addMessage (colour_terminal None) (js ''b'') (Task [] Done [] [] (js ''a'') 1 Unsettled)))
       = js '' '' @ [ellipsis] @ js '' [2]''"
    using second_message_keeps_common_prefix [OF s1 s2 m c, of "Task [] Done [] [] (js ''a'') 1 Unsettled" "js ''b''"] u
    by (simp add: sb lcp) (simp add: js_def toString.simps)
  then show ?thesis
    using second_message_keeps_common_prefix [OF s1 s2 m c] s1 s2 m c u by simp
qed


text \<open>
  C4, as the specification states it, fails: the stored message is not
  \<^verbatim>\<open>"file\<dots> [2]"\<close>, the template puts a space between the prefix and the ellipsis.
\<close>

theorem second_message_counterexample:
  "message (fst (addMessage (colour_terminal None) (js ''file2.txt'')
        (fst (addMessage (colour_terminal None) (js ''file1.txt'') (newTask (js ''copy''))))))
     \<noteq> js ''file'' @ [ellipsis] @ js '' [2]''"
proof -
  have s1: "strip_sgr (js ''file1.txt'') = js ''file1.txt''"
    and s2: "strip_sgr (js ''file2.txt'') = js ''file2.txt''"
    by (simp_all add: js_def ESC_def)
  have "message (fst (addMessage (colour_terminal None) (js ''file2.txt'')
        (fst (addMessage (colour_terminal None) (js ''file1.txt'') (newTask (js ''copy''))))))
      = combineStrings (js ''file1.txt'') (js ''file2.txt'') 2"
    by (simp add: newTask_def colour_terminal_def s1 s2 numeral_2_eq_2) (simp add: js_def)
  also have "\<dots> = js ''file'' @ [32, ellipsis, 32] @ js ''[2]''"
    by (simp add: combineStrings_def take_commonLen lcp_file toString_2) (simp add: js_def)
  finally show ?thesis
    by (simp add: js_def ellipsis_def)
qed

section \<open>The first message of a node\<close>


lemma combineStrings_nonempty: "combineStrings a b n \<noteq> []"
  by (simp add: combineStrings_def)

lemma addMessage_first:
  "message t = [] \<Longrightarrow>
   addMessage env msg t =
     (Task (description t) (status t) (subTasks t) (logs t) (stripAnsi env msg) (msgCount t + 1)
        (completion t), 0)"
  by (cases t) simp

lemma addMessage_later:
  "message t \<noteq> [] \<Longrightarrow>
   addMessage env msg t =
     (Task (description t) (status t) (subTasks t) (logs t)
        (combineStrings (message t) (stripAnsi env msg) (msgCount t + 1)) (msgCount t + 1)
        (completion t), 1)"
  by (cases t) simp

lemma addMessages_Cons:
  "snd (addMessages env (m # ms) t) =
     snd (addMessage env m t) # snd (addMessages env ms (fst (addMessage env m t)))"
  by (simp add: split_beta)

lemma addMessages_later:
  "message t \<noteq> [] \<Longrightarrow> snd (addMessages env ms t) = replicate (length ms) 1"
proof (induction ms arbitrary: t)
  case Nil
  show ?case by simp
next
  case (Cons m ms)
  let ?t1 = "fst (addMessage env m t)"
  have "message ?t1 \<noteq> []"
    using Cons.prems by (simp add: addMessage_later combineStrings_nonempty)
  then have "snd (addMessages env ms ?t1) = replicate (length ms) 1"
    by (rule Cons.IH)
  then show ?case
    using Cons.prems by (simp only: addMessages_Cons) (simp add: addMessage_later)
qed

lemma at_path_requests:
  "snd (at_path path f t) = (case task_at path t of None \<Rightarrow> 0 | Some u \<Rightarrow> snd (f u))"
  by (induction path arbitrary: t) (simp_all add: split_beta split: Task.splits)

lemma on_current_requests:
  "snd (on_current store f w) = (case current_task store w of None \<Rightarrow> 0 | Some u \<Rightarrow> snd (f u))"
  by (simp add: on_current_def current_task_def at_path_requests split_beta
      split: option.splits list.splits)

lemma on_current_frame:
  "immediates (fst (on_current store f w)) = immediates w"
  "painted (fst (on_current store f w)) = painted w"
  "map_option rerender (currentRunner (fst (on_current store f w))) = map_option rerender (currentRunner w)"
  by (simp_all add: on_current_def split_beta split: option.splits list.splits)

text \<open>
  C10. \<^verbatim>\<open>addMessage\<close> on a node whose stored message is empty stores the stripped
  text, counts it and requests no redraw; on a node with a stored message it merges
  and requests one redraw. In a sequence of \<^verbatim>\<open>setMessage\<close> calls on a new node the
  first call requests none, and when its stripped text is not empty every later call
  requests one. Through the exported \<^verbatim>\<open>setMessage\<close>, a first message on the ambient
  task leaves the runner's redraw handle, the queue of scheduled callbacks and the
  painted frames as they were.
\<close>

theorem first_message_requests_no_redraw:
  "(message t = [] \<longrightarrow>
      snd (addMessage env msg t) = 0
      \<and> message (fst (addMessage env msg t)) = stripAnsi env msg
      \<and> msgCount (fst (addMessage env msg t)) = msgCount t + 1)
   \<and> (message t \<noteq> [] \<longrightarrow>
      snd (addMessage env msg t) = 1
      \<and> message (fst (addMessage env msg t))
          = combineStrings (message t) (stripAnsi env msg) (msgCount t + 1))
   \<and> hd (snd (addMessages env (m # ms) (newTask d))) = 0
   \<and> (stripAnsi env m \<noteq> [] \<longrightarrow>
      snd (addMessages env (m # ms) (newTask d)) = 0 # replicate (length ms) 1)
   \<and> (current_task store w = Some t \<and> message t = [] \<longrightarrow>
      immediates (setMessage env msg store w) = immediates w
      \<and> map_option rerender (currentRunner (setMessage env msg store w))
          = map_option rerender (currentRunner w)
      \<and> painted (setMessage env msg store w) = painted w)"
proof -
  have first: "snd (addMessage env msg t) = 0
      \<and> message (fst (addMessage env msg t)) = stripAnsi env msg
      \<and> msgCount (fst (addMessage env msg t)) = msgCount t + 1" if "message t = []"
    using that by (simp add: addMessage_first)
  have later: "snd (addMessage env msg t) = 1
      \<and> message (fst (addMessage env msg t))
          = combineStrings (message t) (stripAnsi env msg) (msgCount t + 1)" if "message t \<noteq> []"
    using that by (simp add: addMessage_later)
  have new: "message (newTask d) = []"
    by (simp add: newTask_def)
  have head: "hd (snd (addMessages env (m # ms) (newTask d))) = 0"
    by (simp only: addMessages_Cons) (simp add: addMessage_first [OF new])
  have rest: "snd (addMessages env (m # ms) (newTask d)) = 0 # replicate (length ms) 1"
    if "stripAnsi env m \<noteq> []"
  proof -
    let ?t1 = "fst (addMessage env m (newTask d))"
    have "message ?t1 \<noteq> []"
      using that by (simp add: addMessage_first [OF new])
    then have "snd (addMessages env ms ?t1) = replicate (length ms) 1"
      by (rule addMessages_later)
    then show ?thesis
      by (simp only: addMessages_Cons) (simp add: addMessage_first [OF new])
  qed
  have world: "immediates (setMessage env msg store w) = immediates w
      \<and> map_option rerender (currentRunner (setMessage env msg store w))
          = map_option rerender (currentRunner w)
      \<and> painted (setMessage env msg store w) = painted w"
    if "current_task store w = Some t" "message t = []"
  proof -
    have "snd (on_current store (addMessage env msg) w) = 0"
      using that by (simp add: on_current_requests addMessage_first)
    then have "setMessage env msg store w = fst (on_current store (addMessage env msg) w)"
      by (simp add: setMessage_def with_current_def split_beta)
    then show ?thesis
      by (simp add: on_current_frame)
  qed
  from first later head rest world show ?thesis by blast
qed


theorem first_message_requests_no_redraw_witness:
  "message (newTask (js ''copy'')) = []
   \<and> snd (addMessage (colour_terminal None) (js ''file1.txt'') (newTask (js ''copy''))) = 0
   \<and> message (Task [] Done [] [] (js ''a'') 1 Unsettled) \<noteq> []
   \<and> snd (addMessage (colour_terminal None) (js ''b'') (Task [] Done [] [] (js ''a'') 1 Unsettled)) = 1
   \<and> stripAnsi (colour_terminal None) (js ''a'') \<noteq> []
   \<and> snd (addMessages (colour_terminal None) [js ''a'', js ''b'', js ''c''] (newTask (js ''copy'')))
       = [0, 1, 1]
   \<and> current_task (Some [0]) (one_root (js ''copy'')) = Some (newTask (js ''copy''))
   \<and> immediates (setMessage (colour_terminal None) (js ''file1.txt'') (Some [0]) (one_root (js ''copy'')))
       = immediates (one_root (js ''copy''))"
proof -
  let ?env = "colour_terminal None"
  have m0: "message (newTask (js ''copy'')) = []"
    by (simp add: newTask_def)
  have m1: "message (Task [] Done [] [] (js ''a'') 1 Unsettled) \<noteq> []"
    by (simp add: js_def)
  have sa: "stripAnsi ?env (js ''a'') \<noteq> []"
    by (simp add: colour_terminal_def js_def ESC_def)
  have cur: "current_task (Some [0]) (one_root (js ''copy'')) = Some (newTask (js ''copy''))"
    by (simp add: current_task_def one_root_def push_root_def new_Runner_def)
  have "snd (addMessage ?env (js ''file1.txt'') (newTask (js ''copy''))) = 0"
    using first_message_requests_no_redraw [of "newTask (js ''copy'')" ?env "js ''file1.txt''"] m0
    by simp
  moreover have "snd (addMessage ?env (js ''b'') (Task [] Done [] [] (js ''a'') 1 Unsettled)) = 1"
    using first_message_requests_no_redraw [of "Task [] Done [] [] (js ''a'') 1 Unsettled" ?env "js ''b''"] m1
    by simp
  moreover have "snd (addMessages ?env [js ''a'', js ''b'', js ''c''] (newTask (js ''copy''))) = [0, 1, 1]"
    using first_message_requests_no_redraw [of _ ?env _ "js ''a''" "[js ''b'', js ''c'']" "js ''copy''"] sa
    by simp
  moreover have "immediates (setMessage ?env (js ''file1.txt'') (Some [0]) (one_root (js ''copy'')))
      = immediates (one_root (js ''copy''))"
    using first_message_requests_no_redraw [of "newTask (js ''copy'')" ?env "js ''file1.txt''" _ _ _
        "Some [0]" "one_root (js ''copy'')"] m0 cur
    by simp
  ultimately show ?thesis
    using m0 m1 sa cur by simp
qed

section \<open>Redraw coalescing\<close>


lemma requestRerender_idle:
  "redraw_idle w \<Longrightarrow> redraw_scheduled (requestRerender w) \<and> painted (requestRerender w) = painted w"
  by (auto simp: redraw_idle_def redraw_scheduled_def requestRerender_def split: option.splits)

lemma requestRerender_scheduled:
  "redraw_scheduled w \<Longrightarrow> requestRerender w = w"
  by (auto simp: redraw_scheduled_def requestRerender_def split: option.splits)

lemma requests_scheduled:
  "redraw_scheduled w \<Longrightarrow> (requestRerender ^^ n) w = w"
  by (induction n) (simp_all add: requestRerender_scheduled)

lemma requests_idle:
  assumes "redraw_idle w" and "0 < n"
  shows "redraw_scheduled ((requestRerender ^^ n) w) \<and> painted ((requestRerender ^^ n) w) = painted w"
proof -
  obtain k where n: "n = Suc k" using assms(2) by (cases n) auto
  have "(requestRerender ^^ n) w = (requestRerender ^^ k) (requestRerender w)"
    by (simp add: n funpow_swap1)
  also have "\<dots> = requestRerender w"
    using assms(1) by (simp add: requests_scheduled requestRerender_idle)
  finally show ?thesis
    using assms(1) by (simp add: requestRerender_idle)
qed

lemma redraw_idle_iff:
  "redraw_idle w \<longleftrightarrow> map_option rerender (currentRunner w) = Some None \<and> immediates w = []"
  by (auto simp: redraw_idle_def split: option.splits)

lemma redraw_scheduled_iff:
  "redraw_scheduled w \<longleftrightarrow>
     (\<exists>h. map_option rerender (currentRunner w) = Some (Some h) \<and> immediates w = [h])"
  by (auto simp: redraw_scheduled_def split: option.splits)

lemma on_current_idle:
  "redraw_idle (fst (on_current store f w)) = redraw_idle w"
  by (simp add: redraw_idle_iff on_current_frame)

lemma on_current_scheduled:
  "redraw_scheduled (fst (on_current store f w)) = redraw_scheduled w"
  by (simp add: redraw_scheduled_iff on_current_frame)

lemma on_current_painted:
  "painted (fst (on_current store f w)) = painted w"
  by (simp add: on_current_frame)

lemma with_current_scheduled:
  "redraw_scheduled w \<Longrightarrow>
   redraw_scheduled (with_current store f w) \<and> painted (with_current store f w) = painted w"
  by (simp add: with_current_def split_beta requests_scheduled on_current_scheduled on_current_painted)

lemma with_current_idle:
  assumes "redraw_idle w"
  shows "painted (with_current store f w) = painted w
       \<and> (if snd (on_current store f w) = 0 then redraw_idle (with_current store f w)
          else redraw_scheduled (with_current store f w))"
proof (cases "snd (on_current store f w) = 0")
  case True
  then show ?thesis
    using assms by (simp add: with_current_def split_beta on_current_idle on_current_painted)
next
  case False
  then have "0 < snd (on_current store f w)" by simp
  moreover have "redraw_idle (fst (on_current store f w))"
    using assms by (simp add: on_current_idle)
  ultimately show ?thesis
    using False requests_idle [of "fst (on_current store f w)" "snd (on_current store f w)"]
    by (simp add: with_current_def split_beta on_current_painted)
qed

lemma mutate_Cons:
  "mutate env ((store, mu) # ms) w = mutate env ms (with_current store (mutation_call env mu) w)"
  by (cases mu) (simp_all add: setStatus_def setMessage_def)

lemma mutate_scheduled:
  "redraw_scheduled w \<Longrightarrow>
   redraw_scheduled (mutate env ms w) \<and> painted (mutate env ms w) = painted w"
proof (induction ms arbitrary: w)
  case Nil
  then show ?case by simp
next
  case (Cons m ms)
  obtain store mu where m: "m = (store, mu)" by (cases m)
  from Cons.prems have "redraw_scheduled (with_current store (mutation_call env mu) w)"
    and "painted (with_current store (mutation_call env mu) w) = painted w"
    by (simp_all add: with_current_scheduled)
  with Cons.IH [of "with_current store (mutation_call env mu) w"] show ?case
    by (simp add: m mutate_Cons)
qed

lemma mutate_idle:
  "redraw_idle w \<Longrightarrow>
   painted (mutate env ms w) = painted w
   \<and> (if requested env ms w = 0 then redraw_idle (mutate env ms w)
      else redraw_scheduled (mutate env ms w))"
proof (induction ms arbitrary: w)
  case Nil
  then show ?case by simp
next
  case (Cons m ms)
  obtain store mu where m: "m = (store, mu)" by (cases m)
  let ?w1 = "with_current store (mutation_call env mu) w"
  let ?n = "snd (on_current store (mutation_call env mu) w)"
  have step: "painted ?w1 = painted w"
    "if ?n = 0 then redraw_idle ?w1 else redraw_scheduled ?w1"
    using with_current_idle [OF Cons.prems, of store "mutation_call env mu"] by simp_all
  show ?case
  proof (cases "?n = 0")
    case True
    with step have "redraw_idle ?w1" by simp
    from Cons.IH [OF this] step(1) True show ?thesis
      by (simp add: m mutate_Cons)
  next
    case False
    with step have "redraw_scheduled ?w1" by simp
    from mutate_scheduled [OF this, of env ms] step(1) False show ?thesis
      by (simp add: m mutate_Cons)
  qed
qed

lemma update_roots_frame:
  "map_option rerender (currentRunner w) = Some (Some h) \<Longrightarrow>
   map_option rerender (currentRunner (update_roots w)) = Some (Some h)
   \<and> immediates (update_roots w) = immediates w \<and> painted (update_roots w) = painted w"
proof -
  assume a: "map_option rerender (currentRunner w) = Some (Some h)"
  then obtain r where r: "currentRunner w = Some r" "rerender r = Some h" by auto
  let ?w1 = "w\<lparr>currentRunner := Some (r\<lparr>roots := map (fst \<circ> update) (roots r)\<rparr>)\<rparr>"
  have "requestRerender ?w1 = ?w1"
    using r by (simp add: requestRerender_def)
  then have "(requestRerender ^^ n) ?w1 = ?w1" for n
    by (induction n) simp_all
  then show ?thesis
    using r by (simp add: update_roots_def)
qed

lemma render_all_frame:
  "map_option rerender (currentRunner w) = Some x \<Longrightarrow>
   map_option rerender (currentRunner (render_all env w)) = Some x
   \<and> immediates (render_all env w) = immediates w
   \<and> length (painted (render_all env w)) = length (painted w) + 1"
  by (auto simp: render_all_def Let_def split: option.splits)

lemma redraw_fires:
  assumes "map_option rerender (currentRunner w) = Some (Some h)" and "immediates w = []"
  shows "redraw_idle (redraw env w) \<and> length (painted (redraw env w)) = length (painted w) + 1"
proof -
  let ?w1 = "render_all env (update_roots w)"
  have u: "map_option rerender (currentRunner (update_roots w)) = Some (Some h)"
    "immediates (update_roots w) = []" "painted (update_roots w) = painted w"
    using update_roots_frame [OF assms(1)] assms(2) by simp_all
  have v: "map_option rerender (currentRunner ?w1) = Some (Some h)"
    "immediates ?w1 = []" "length (painted ?w1) = length (painted w) + 1"
    using render_all_frame [OF u(1), of env] u(2,3) by simp_all
  from v(1) obtain r where r: "currentRunner ?w1 = Some r" by auto
  show ?thesis
    using v r by (simp add: redraw_def Let_def redraw_idle_def)
qed

lemma tick_idle: "redraw_idle w \<Longrightarrow> tick env w = w"
  by (simp add: tick_def redraw_idle_iff)

lemma tick_scheduled:
  assumes "redraw_scheduled w"
  shows "redraw_idle (tick env w) \<and> length (painted (tick env w)) = length (painted w) + 1"
proof -
  obtain h where h: "map_option rerender (currentRunner w) = Some (Some h)" "immediates w = [h]"
    using assms by (auto simp: redraw_scheduled_iff)
  have "tick env w = redraw env (w\<lparr>immediates := []\<rparr>)"
    by (simp add: tick_def h)
  moreover have "redraw_idle (redraw env (w\<lparr>immediates := []\<rparr>))
      \<and> length (painted (redraw env (w\<lparr>immediates := []\<rparr>))) = length (painted (w\<lparr>immediates := []\<rparr>)) + 1"
    using h by (intro redraw_fires [of _ h]) simp_all
  ultimately show ?thesis by simp
qed

text \<open>
  What the scheduler guarantees. From a state in which no redraw is scheduled, a
  sequence of status and message mutations made with no turn of the event loop in
  between paints nothing by itself, and the next turn paints exactly one frame when at
  least one of the mutations requested a redraw and none otherwise; likewise \<open>n\<close>
  calls of \<^verbatim>\<open>requestRerender\<close> give one frame for every \<open>n \<ge> 1\<close>. After the turn no
  redraw is scheduled again. A mutation requests what the method it calls on the
  ambient task requests.
\<close>

lemma redraws_coalesce:
  assumes "redraw_idle w"
  shows "painted (mutate env ms w) = painted w
       \<and> length (painted (tick env (mutate env ms w)))
           = length (painted w) + (if requested env ms w = 0 then 0 else 1)
       \<and> redraw_idle (tick env (mutate env ms w))
       \<and> painted ((requestRerender ^^ n) w) = painted w
       \<and> length (painted (tick env ((requestRerender ^^ n) w)))
           = length (painted w) + (if n = 0 then 0 else 1)
       \<and> redraw_idle (tick env ((requestRerender ^^ n) w))
       \<and> requested env [(store, mu)] w
           = (case current_task store w of None \<Rightarrow> 0 | Some u \<Rightarrow> snd (mutation_call env mu u))"
proof -
  have m: "painted (mutate env ms w) = painted w"
    "if requested env ms w = 0 then redraw_idle (mutate env ms w)
     else redraw_scheduled (mutate env ms w)"
    using mutate_idle [OF assms, of env ms] by simp_all
  have mt: "length (painted (tick env (mutate env ms w)))
      = length (painted w) + (if requested env ms w = 0 then 0 else 1)
      \<and> redraw_idle (tick env (mutate env ms w))"
  proof (cases "requested env ms w = 0")
    case True
    with m show ?thesis by (simp add: tick_idle)
  next
    case False
    with m have "redraw_scheduled (mutate env ms w)" by simp
    from tick_scheduled [OF this, of env] m(1) False show ?thesis by simp
  qed
  have rt: "painted ((requestRerender ^^ n) w) = painted w
      \<and> length (painted (tick env ((requestRerender ^^ n) w)))
          = length (painted w) + (if n = 0 then 0 else 1)
      \<and> redraw_idle (tick env ((requestRerender ^^ n) w))"
  proof (cases "n = 0")
    case True
    with assms show ?thesis by (simp add: tick_idle)
  next
    case False
    then have s: "redraw_scheduled ((requestRerender ^^ n) w)"
      "painted ((requestRerender ^^ n) w) = painted w"
      using requests_idle [OF assms, of n] by simp_all
    from tick_scheduled [OF s(1), of env] s(2) False show ?thesis by simp
  qed
  have one: "requested env [(store, mu)] w
      = (case current_task store w of None \<Rightarrow> 0 | Some u \<Rightarrow> snd (mutation_call env mu u))"
    by (simp add: on_current_requests)
  from m(1) mt rt one show ?thesis by simp
qed

text \<open>
  C9 fails on the code for a mutation that requests no redraw. \<^verbatim>\<open>addMessage\<close> returns
  early on a node's first message, before the \<^verbatim>\<open>requestRerender\<close> call its merging
  branch and the status setter make. A first top-level \<^verbatim>\<open>run\<close> whose operation has
  not settled leaves one root and no redraw scheduled; one \<^verbatim>\<open>setMessage\<close> on that root
  then stores the message, and the next turn of the event loop paints no frame, where
  the claim has exactly one.
\<close>

theorem first_message_paints_nothing:
  "run (colour_terminal None) (js ''build'') (pending :: unit operation) initial
     = (one_root (js ''build''), Inr Unsettled)
   \<and> redraw_idle (one_root (js ''build''))
   \<and> current_task (Some [0]) (mutate (colour_terminal None) [(Some [0], SetMessage (js ''hi''))]
        (one_root (js ''build'')))
       = Some (Task (js ''build'') Pending [] [] (js ''hi'') 1 Unsettled)
   \<and> painted (tick (colour_terminal None) (mutate (colour_terminal None)
        [(Some [0], SetMessage (js ''hi''))] (one_root (js ''build'')))) = []"
proof -
  have "performTask (colour_terminal None) (pending :: unit operation) (newTask (js ''build''))
      = (newTask (js ''build''), 0, Unsettled)"
    by (simp add: performTask_def pending_def)
  then have "run (colour_terminal None) (js ''build'') (pending :: unit operation) initial
     = (one_root (js ''build''), Inr Unsettled)"
    by (simp add: run_def one_root_def initial_def)
  moreover have "redraw_idle (one_root (js ''build''))"
    by code_simp
  moreover have "current_task (Some [0]) (mutate (colour_terminal None)
        [(Some [0], SetMessage (js ''hi''))] (one_root (js ''build'')))
       = Some (Task (js ''build'') Pending [] [] (js ''hi'') 1 Unsettled)"
    by code_simp
  moreover have "painted (tick (colour_terminal None) (mutate (colour_terminal None)
        [(Some [0], SetMessage (js ''hi''))] (one_root (js ''build'')))) = []"
    by code_simp
  ultimately show ?thesis by simp
qed

section \<open>The runner's lifetime\<close>


lemma requestRerender_kept:
  "sessions (requestRerender w) = sessions w
   \<and> runner_session (requestRerender w) = runner_session w
   \<and> console (requestRerender w) = console w"
  by (simp add: requestRerender_def runner_session_def saved_console_def split: option.splits)

lemma requests_kept:
  "sessions ((requestRerender ^^ n) w) = sessions w
   \<and> runner_session ((requestRerender ^^ n) w) = runner_session w
   \<and> console ((requestRerender ^^ n) w) = console w"
  by (induction n) (simp_all add: requestRerender_kept)

lemma push_root_kept:
  "sessions (push_root t w) = sessions w
   \<and> runner_session (push_root t w) = runner_session w
   \<and> console (push_root t w) = console w"
  by (simp add: push_root_def runner_session_def saved_console_def split: option.splits)

lemma update_roots_kept:
  "sessions (update_roots w) = sessions w
   \<and> runner_session (update_roots w) = runner_session w
   \<and> console (update_roots w) = console w"
proof (cases "currentRunner w")
  case None
  then show ?thesis by (simp add: update_roots_def)
next
  case (Some r)
  let ?w1 = "w\<lparr>currentRunner := Some (r\<lparr>roots := map (fst \<circ> update) (roots r)\<rparr>)\<rparr>"
  have "sessions ?w1 = sessions w" "runner_session ?w1 = runner_session w"
    "console ?w1 = console w"
    using Some by (simp_all add: runner_session_def saved_console_def)
  then show ?thesis
    by (simp add: update_roots_def Some requests_kept)
qed

lemma render_all_kept:
  "sessions (render_all env w) = sessions w
   \<and> runner_session (render_all env w) = runner_session w
   \<and> console (render_all env w) = console w"
  by (simp add: render_all_def Let_def runner_session_def split: option.splits)

lemma log_outside_kept:
  "sessions (log_outside l w) = sessions w
   \<and> runner_session (log_outside l w) = runner_session w
   \<and> console (log_outside l w) = console w"
  by (simp add: log_outside_def runner_session_def)

lemma logs_outside_kept:
  "sessions (fold log_outside ls w) = sessions w
   \<and> runner_session (fold log_outside ls w) = runner_session w
   \<and> console (fold log_outside ls w) = console w"
  by (induction ls arbitrary: w) (simp_all add: log_outside_kept)

lemma print_roots_step_kept:
  "sessions (fst (fold (\<lambda>root (w', e). case e of
               Some x \<Rightarrow> (w', e)
             | None \<Rightarrow> (case printLogs env root of (out, e') \<Rightarrow> (fold log_outside out w', e')))
       rs (w, e0))) = sessions w
   \<and> runner_session (fst (fold (\<lambda>root (w', e). case e of
               Some x \<Rightarrow> (w', e)
             | None \<Rightarrow> (case printLogs env root of (out, e') \<Rightarrow> (fold log_outside out w', e')))
       rs (w, e0))) = runner_session w
   \<and> console (fst (fold (\<lambda>root (w', e). case e of
               Some x \<Rightarrow> (w', e)
             | None \<Rightarrow> (case printLogs env root of (out, e') \<Rightarrow> (fold log_outside out w', e')))
       rs (w, e0))) = console w"
  by (induction rs arbitrary: w e0)
    (simp_all add: logs_outside_kept split_beta split: option.splits)

lemma print_roots_kept:
  "sessions (fst (print_roots env rs w)) = sessions w
   \<and> runner_session (fst (print_roots env rs w)) = runner_session w
   \<and> console (fst (print_roots env rs w)) = console w"
  unfolding print_roots_def by (rule print_roots_step_kept)

lemma allDone_kept:
  "sessions (fst (allDone env w)) = sessions w
   \<and> runner_session (fst (allDone env w)) = runner_session w
   \<and> console (fst (allDone env w))
       = (case currentRunner w of None \<Rightarrow> console w | Some r \<Rightarrow> saved_console r)"
proof (cases "currentRunner w")
  case None
  then show ?thesis by (simp add: allDone_def)
next
  case (Some r)
  define w1 where "w1 = (case rerender r of
                       Some h \<Rightarrow> w\<lparr>immediates := removeAll h (immediates w)\<rparr>
                     | None \<Rightarrow> w)"
  define w2 where "w2 = render_all env (update_roots w1)"
  define w4 where "w4 = w2\<lparr>finished := finished w2 @ [backend r], console := saved_console r\<rparr>"
  define rs where "rs = (case currentRunner w4 of None \<Rightarrow> [] | Some r4 \<Rightarrow> roots r4)"
  have k1: "sessions w1 = sessions w" "runner_session w1 = runner_session w"
    by (simp_all add: w1_def runner_session_def split: option.splits)
  have k2: "sessions w2 = sessions w" "runner_session w2 = runner_session w"
    by (simp_all add: w2_def render_all_kept update_roots_kept k1)
  have k4: "sessions w4 = sessions w" "runner_session w4 = runner_session w"
    "console w4 = saved_console r"
    using k2 by (simp_all add: w4_def runner_session_def)
  let ?p = "print_roots env rs w4"
  have k5: "sessions (fst ?p) = sessions w" "runner_session (fst ?p) = runner_session w"
    "console (fst ?p) = saved_console r"
    by (simp_all add: print_roots_kept k4)
  have eq: "allDone env w =
      (case ?p of (w5, Some e) \<Rightarrow> (w5, Some e) | (w5, None) \<Rightarrow> (log_outside [10] w5, None))"
    by (simp add: allDone_def Some Let_def w1_def w2_def w4_def rs_def)
  obtain w5 e where p: "?p = (w5, e)" by (cases ?p)
  have "fst (allDone env w) = fst ?p \<or> fst (allDone env w) = log_outside [10] (fst ?p)"
    by (cases e) (simp_all add: eq p)
  then show ?thesis
    using k5 by (auto simp: Some log_outside_kept)
qed

lemma rootDone_kept:
  "sessions (fst (rootDone env w)) = sessions w
   \<and> runner_session (fst (rootDone env w)) = runner_session w
   \<and> console (fst (rootDone env w)) \<in>
       {console w} \<union> (case currentRunner w of None \<Rightarrow> {} | Some r \<Rightarrow> {saved_console r})"
proof (cases "currentRunner w")
  case None
  then show ?thesis by (simp add: rootDone_def)
next
  case (Some r)
  let ?w1 = "w\<lparr>currentRunner := Some (r\<lparr>terminatedRoots := terminatedRoots r + 1\<rparr>)\<rparr>"
  have k: "sessions ?w1 = sessions w" "runner_session ?w1 = runner_session w"
    "console ?w1 = console w"
    using Some by (simp_all add: runner_session_def saved_console_def)
  have "fst (rootDone env w) = ?w1 \<or> fst (rootDone env w) = fst (allDone env ?w1)"
    by (simp add: rootDone_def Some Let_def)
  then show ?thesis
    using k allDone_kept [of env ?w1] by (auto simp: Some saved_console_def)
qed

lemma redraw_kept:
  "sessions (redraw env w) = sessions w \<and> runner_session (redraw env w) = runner_session w"
proof -
  let ?w1 = "render_all env (update_roots w)"
  have k: "sessions ?w1 = sessions w" "runner_session ?w1 = runner_session w"
    by (simp_all add: render_all_kept update_roots_kept)
  show ?thesis
  proof (cases "currentRunner ?w1")
    case None
    with k show ?thesis by (simp add: redraw_def Let_def)
  next
    case (Some r)
    with k show ?thesis
      by (simp add: redraw_def Let_def runner_session_def saved_console_def)
  qed
qed

lemma tick_step_kept:
  "sessions (fold (\<lambda>h w'. if h \<in> set (immediates w')
                   then redraw env (w'\<lparr>immediates := removeAll h (immediates w')\<rparr>)
                   else w') hs w) = sessions w
   \<and> runner_session (fold (\<lambda>h w'. if h \<in> set (immediates w')
                   then redraw env (w'\<lparr>immediates := removeAll h (immediates w')\<rparr>)
                   else w') hs w) = runner_session w"
proof (induction hs arbitrary: w)
  case Nil
  show ?case by simp
next
  case (Cons h hs)
  let ?w1 = "w\<lparr>immediates := removeAll h (immediates w)\<rparr>"
  have a: "sessions ?w1 = sessions w" "runner_session ?w1 = runner_session w"
    by (simp_all add: runner_session_def)
  have "sessions (redraw env ?w1) = sessions w" "runner_session (redraw env ?w1) = runner_session w"
    using redraw_kept [of env ?w1] a by simp_all
  with Cons.IH show ?case by simp
qed

lemma tick_kept:
  "sessions (tick env w) = sessions w \<and> runner_session (tick env w) = runner_session w"
  unfolding tick_def by (rule tick_step_kept)

lemma new_Runner_fresh:
  "sessions (new_Runner w) = sessions w + 1
   \<and> runner_session (new_Runner w) = Some (sessions w, console w)
   \<and> console (new_Runner w) = intercepted"
  by (simp add: new_Runner_def runner_session_def saved_console_def intercepted_def)

lemma run_cases:
  "\<exists>taskObj n. fst (run env d op w) =
       push_root taskObj ((requestRerender ^^ n) (case currentRunner w of None \<Rightarrow> new_Runner w | Some r \<Rightarrow> w))
     \<or> fst (run env d op w) =
       fst (rootDone env (push_root taskObj ((requestRerender ^^ n)
         (case currentRunner w of None \<Rightarrow> new_Runner w | Some r \<Rightarrow> w))))"
proof -
  obtain taskObj n r where p: "performTask env op (newTask d) = (taskObj, n, r)"
    by (cases "performTask env op (newTask d)") auto
  let ?w2 = "push_root taskObj ((requestRerender ^^ n)
      (case currentRunner w of None \<Rightarrow> new_Runner w | Some r \<Rightarrow> w))"
  obtain w3 e where d: "rootDone env ?w2 = (w3, e)" by (cases "rootDone env ?w2")
  have "fst (run env d op w) = ?w2 \<or> fst (run env d op w) = fst (rootDone env ?w2)"
    by (cases r; cases e) (simp_all add: run_def Let_def p d)
  then show ?thesis by blast
qed

text \<open>
  What happens to the runner. The first top-level \<^verbatim>\<open>run\<close> creates it, with a new
  terminal-painting session and the console as it found it saved. No method unsets
  \<^verbatim>\<open>currentRunner\<close>: \<^verbatim>\<open>rootDone\<close>, \<^verbatim>\<open>allDone\<close> and the redraw callback leave the same
  instance there, and a top-level \<^verbatim>\<open>run\<close> that finds a runner uses it: it opens no
  terminal-painting session and does not intercept the console, which stays as it was
  or is set back to what that runner saved.
\<close>

lemma runner_is_kept:
  "(currentRunner w = None \<longrightarrow>
      runner_session (fst (run env d op w)) = Some (sessions w, console w)
      \<and> sessions (fst (run env d op w)) = sessions w + 1)
   \<and> (currentRunner w = Some r \<longrightarrow>
      runner_session (fst (run env d op w)) = Some (backend r, saved_console r)
      \<and> sessions (fst (run env d op w)) = sessions w
      \<and> console (fst (run env d op w)) \<in> {console w, saved_console r})
   \<and> runner_session (fst (rootDone env w)) = runner_session w
   \<and> runner_session (fst (allDone env w)) = runner_session w
   \<and> runner_session (tick env w) = runner_session w"
proof -
  obtain taskObj n where c:
    "fst (run env d op w) =
       push_root taskObj ((requestRerender ^^ n) (case currentRunner w of None \<Rightarrow> new_Runner w | Some r \<Rightarrow> w))
     \<or> fst (run env d op w) =
       fst (rootDone env (push_root taskObj ((requestRerender ^^ n)
         (case currentRunner w of None \<Rightarrow> new_Runner w | Some r \<Rightarrow> w))))"
    using run_cases [of env d op w] by blast
  have fresh: "runner_session (fst (run env d op w)) = Some (sessions w, console w)
      \<and> sessions (fst (run env d op w)) = sessions w + 1" if "currentRunner w = None"
    using c that
    by (auto simp: rootDone_kept push_root_kept requests_kept new_Runner_fresh)
  have kept: "runner_session (fst (run env d op w)) = Some (backend r, saved_console r)
      \<and> sessions (fst (run env d op w)) = sessions w
      \<and> console (fst (run env d op w)) \<in> {console w, saved_console r}"
    if r: "currentRunner w = Some r"
  proof -
    let ?w2 = "push_root taskObj ((requestRerender ^^ n) w)"
    have k: "sessions ?w2 = sessions w" "runner_session ?w2 = runner_session w"
      "console ?w2 = console w"
      by (simp_all add: push_root_kept requests_kept)
    have rs: "runner_session w = Some (backend r, saved_console r)"
      using r by (simp add: runner_session_def)
    from k(2) rs obtain r2 where r2: "currentRunner ?w2 = Some r2" "saved_console r2 = saved_console r"
      by (auto simp: runner_session_def)
    have "console (fst (rootDone env ?w2)) \<in> {console w, saved_console r}"
      using rootDone_kept [of env ?w2] r2 k(3) by auto
    then show ?thesis
      using c r k rs by (auto simp: rootDone_kept)
  qed
  from fresh kept show ?thesis
    by (simp add: rootDone_kept allDone_kept tick_kept)
qed

text \<open>
  C6 fails on the code. \<^verbatim>\<open>allDone\<close> finalizes the terminal-painting session, restores
  the console and cancels the scheduled redraw without unsetting \<^verbatim>\<open>_rerender\<close>, but
  \<^verbatim>\<open>currentRunner\<close> keeps the drained runner and the next top-level \<^verbatim>\<open>run\<close> works
  with it. While a first top-level \<^verbatim>\<open>run\<close> is in progress the console is intercepted
  and a redraw request is scheduled. Once that run, whose operation logged one line, has
  settled and the runner has drained, session 0 is finalized, the console is the host's
  again, four lines have been printed, and the runner is still the current one. While a
  second top-level \<^verbatim>\<open>run\<close> is in progress the runner and its session are the same, no
  session has been created, the console is not intercepted, and a redraw request
  schedules nothing. When the second run settles its frame goes to the finalized session
  0, which is finalized once more, and the lines of the first drain are printed once
  more.
\<close>

theorem second_run_uses_drained_runner:
  "console (fst (run (colour_terminal None) (js ''first'') (pending :: unit operation) initial))
     = intercepted
   \<and> immediates (requestRerender
        (fst (run (colour_terminal None) (js ''first'') (pending :: unit operation) initial))) = [0]
   \<and> runner_session drained = Some (0, console initial)
   \<and> sessions drained = 1
   \<and> finished drained = [0]
   \<and> console drained = console initial
   \<and> length (stdout drained) = 4
   \<and> runner_session (fst (run (colour_terminal None) (js ''second'') (pending :: unit operation)
        drained)) = Some (0, console initial)
   \<and> sessions (fst (run (colour_terminal None) (js ''second'') (pending :: unit operation)
        drained)) = 1
   \<and> console (fst (run (colour_terminal None) (js ''second'') (pending :: unit operation)
        drained)) = console initial
   \<and> immediates (requestRerender (fst (run (colour_terminal None) (js ''second'')
        (pending :: unit operation) drained))) = []
   \<and> map fst (painted (fst (run (colour_terminal None) (js ''second'') (resolving ()) drained)))
       = [0, 0]
   \<and> finished (fst (run (colour_terminal None) (js ''second'') (resolving ()) drained)) = [0, 0]
   \<and> stdout (fst (run (colour_terminal None) (js ''second'') (resolving ()) drained))
       = stdout drained @ stdout drained"
proof -
  have "console (fst (run (colour_terminal None) (js ''first'') (pending :: unit operation) initial))
     = intercepted"
    by code_simp
  moreover have "immediates (requestRerender
        (fst (run (colour_terminal None) (js ''first'') (pending :: unit operation) initial))) = [0]"
    by code_simp
  moreover have "runner_session drained = Some (0, console initial)"
    by code_simp
  moreover have "sessions drained = 1"
    by code_simp
  moreover have "finished drained = [0]"
    by code_simp
  moreover have "console drained = console initial"
    by code_simp
  moreover have "length (stdout drained) = 4"
    by code_simp
  moreover have "runner_session (fst (run (colour_terminal None) (js ''second'')
        (pending :: unit operation) drained)) = Some (0, console initial)"
    by code_simp
  moreover have "sessions (fst (run (colour_terminal None) (js ''second'')
        (pending :: unit operation) drained)) = 1"
    by code_simp
  moreover have "console (fst (run (colour_terminal None) (js ''second'')
        (pending :: unit operation) drained)) = console initial"
    by code_simp
  moreover have "immediates (requestRerender (fst (run (colour_terminal None) (js ''second'')
        (pending :: unit operation) drained))) = []"
    by code_simp
  moreover have "map fst (painted (fst (run (colour_terminal None) (js ''second'') (resolving ())
        drained))) = [0, 0]"
    by code_simp
  moreover have "finished (fst (run (colour_terminal None) (js ''second'') (resolving ()) drained))
      = [0, 0]"
    by code_simp
  moreover have "stdout (fst (run (colour_terminal None) (js ''second'') (resolving ()) drained))
       = stdout drained @ stdout drained"
    by code_simp
  ultimately show ?thesis by simp
qed


section \<open>Optional tasks\<close>
























section \<open>Waiting for a subtree\<close>


lemma await_at_Resolved:
  "await_at t0 p = Resolved tr \<longleftrightarrow> (\<exists>t. p = Resolved t \<and> tr = max t0 t)"
  by (cases p) auto

lemma both_Resolved:
  "both p q = Resolved tr \<longleftrightarrow> (\<exists>a b. p = Resolved a \<and> q = Resolved b \<and> tr = max a b)"
  by (cases p; cases q) auto

lemma all_at_Resolved:
  "all_at t0 ps = Resolved tr \<Longrightarrow> t0 \<le> tr \<and> (\<forall>p\<in>set ps. \<exists>t. p = Resolved t \<and> t \<le> tr)"
proof (induction ps arbitrary: tr)
  case Nil
  then show ?case by simp
next
  case (Cons p ps)
  from Cons.prems obtain a b where ab: "await_at t0 p = Resolved a" "all_at t0 ps = Resolved b"
    "tr = max a b"
    by (auto simp: both_Resolved)
  from ab(1) obtain t where t: "p = Resolved t" "a = max t0 t"
    by (auto simp: await_at_Resolved)
  from Cons.IH [OF ab(2)] have "t0 \<le> b" "\<forall>q\<in>set ps. \<exists>t. q = Resolved t \<and> t \<le> b"
    by simp_all
  with ab(3) t show ?case by fastforce
qed

lemma all_at_total:
  "\<forall>p\<in>set ps. \<exists>t. p = Resolved t \<Longrightarrow> \<exists>tr. all_at t0 ps = Resolved tr"
proof (induction ps)
  case Nil
  show ?case by simp
next
  case (Cons p ps)
  then obtain t b where "p = Resolved t" "all_at t0 ps = Resolved b" by auto
  then show ?case by simp
qed

lemma wait_at_unfold:
  "wait_at t0 n =
     (case await_at t0 (performTask_at n) of
        Resolved ts \<Rightarrow> all_at ts (map (wait_at ts) (snapshot ts (children n)))
      | other \<Rightarrow> other)"
  by (cases n) (simp add: wait_at.simps performTask_at_def cong: settled.case_cong)

text \<open>
  C7, as the code has it. If \<^verbatim>\<open>wait()\<close>, called at time \<open>t0\<close>, resolves at time \<open>tr\<close>,
  then the node's operation has resolved, \<^verbatim>\<open>_completion\<close> has resolved at some time
  \<open>tc\<close> after the \<^verbatim>\<open>wait()\<close> of every child present when the operation returned, and
  \<open>tr\<close> is not before \<open>t0\<close>, \<open>tc\<close> or the time the \<^verbatim>\<open>wait()\<close> of any child present at
  the later of \<open>t0\<close> and \<open>tc\<close> resolves. The child sequence is read at that one moment:
  as soon as \<^verbatim>\<open>_completion\<close> has resolved and the \<^verbatim>\<open>wait()\<close> of every child present
  then resolves, \<^verbatim>\<open>wait()\<close> resolves, whatever is appended afterwards.
\<close>

theorem wait_reads_children_once:
  "(wait_at t0 n = Resolved tr \<longrightarrow>
      (\<exists>top tc. operation n = Resolved top \<and> performTask_at n = Resolved tc
         \<and> top \<le> tc \<and> max t0 tc \<le> tr
         \<and> (\<forall>c\<in>set (snapshot top (children n)). \<exists>t. wait_at top c = Resolved t \<and> t \<le> tc)
         \<and> (\<forall>c\<in>set (snapshot (max t0 tc) (children n)).
               \<exists>t. wait_at (max t0 tc) c = Resolved t \<and> t \<le> tr)))
   \<and> (performTask_at n = Resolved tc
        \<and> (\<forall>c\<in>set (snapshot (max t0 tc) (children n)). \<exists>t. wait_at (max t0 tc) c = Resolved t) \<longrightarrow>
      (\<exists>tr. wait_at t0 n = Resolved tr))"
proof (intro conjI impI)
  assume w: "wait_at t0 n = Resolved tr"
  then obtain ts where ts: "await_at t0 (performTask_at n) = Resolved ts"
    and a: "all_at ts (map (wait_at ts) (snapshot ts (children n))) = Resolved tr"
    by (auto simp: wait_at_unfold [of t0 n] split: settled.splits)
  from ts obtain tc where tc: "performTask_at n = Resolved tc" "ts = max t0 tc"
    by (auto simp: await_at_Resolved)
  from tc(1) obtain top where top: "operation n = Resolved top"
    and p: "all_at top (map (wait_at top) (snapshot top (children n))) = Resolved tc"
    by (auto simp: performTask_at_def split: settled.splits)
  from all_at_Resolved [OF p] have 1: "top \<le> tc"
    "\<forall>c\<in>set (snapshot top (children n)). \<exists>t. wait_at top c = Resolved t \<and> t \<le> tc"
    by auto
  from all_at_Resolved [OF a] tc(2) have 2: "max t0 tc \<le> tr"
    "\<forall>c\<in>set (snapshot (max t0 tc) (children n)). \<exists>t. wait_at (max t0 tc) c = Resolved t \<and> t \<le> tr"
    by auto
  from top tc(1) 1 2
  show "\<exists>top tc. operation n = Resolved top \<and> performTask_at n = Resolved tc
         \<and> top \<le> tc \<and> max t0 tc \<le> tr
         \<and> (\<forall>c\<in>set (snapshot top (children n)). \<exists>t. wait_at top c = Resolved t \<and> t \<le> tc)
         \<and> (\<forall>c\<in>set (snapshot (max t0 tc) (children n)).
               \<exists>t. wait_at (max t0 tc) c = Resolved t \<and> t \<le> tr)"
    by blast
next
  assume h: "performTask_at n = Resolved tc
        \<and> (\<forall>c\<in>set (snapshot (max t0 tc) (children n)). \<exists>t. wait_at (max t0 tc) c = Resolved t)"
  then have "\<forall>p\<in>set (map (wait_at (max t0 tc)) (snapshot (max t0 tc) (children n))). \<exists>t. p = Resolved t"
    by auto
  from all_at_total [OF this, of "max t0 tc"] h
  show "\<exists>tr. wait_at t0 n = Resolved tr"
    by (simp add: wait_at_unfold [of t0 n])
qed

theorem wait_reads_children_once_witness:
  "wait_at 0 late_child_example = Resolved 20
   \<and> (\<exists>top tc. operation late_child_example = Resolved top
         \<and> performTask_at late_child_example = Resolved tc \<and> top \<le> tc \<and> max 0 tc \<le> 20)
   \<and> performTask_at late_child_example = Resolved 10
   \<and> snapshot 10 (children late_child_example)
       = [TimedTask (Resolved 10) [], TimedTask (Resolved 20) []]
   \<and> wait_at 10 (TimedTask (Resolved 10) []) = Resolved 10
   \<and> wait_at 10 (TimedTask (Resolved 20) []) = Resolved 20
   \<and> (\<exists>tr. wait_at 5 late_child_example = Resolved tr)"
proof -
  have w: "wait_at 0 late_child_example = Resolved 20"
    by code_simp
  have p: "performTask_at late_child_example = Resolved 10"
    by code_simp
  have s: "snapshot 10 (children late_child_example)
       = [TimedTask (Resolved 10) [], TimedTask (Resolved 20) []]"
    by code_simp
  have a: "wait_at 10 (TimedTask (Resolved 10) []) = Resolved 10"
    and c: "wait_at 10 (TimedTask (Resolved 20) []) = Resolved 20"
    by code_simp+
  have all: "\<forall>c\<in>set (snapshot (max 5 10) (children late_child_example)).
      \<exists>t. wait_at (max 5 10) c = Resolved t"
    by (simp add: s a c)
  have "\<exists>top tc. operation late_child_example = Resolved top
         \<and> performTask_at late_child_example = Resolved tc \<and> top \<le> tc \<and> max 0 tc \<le> 20"
    using wait_reads_children_once [of 0 late_child_example 20] w by blast
  moreover have "\<exists>tr. wait_at 5 late_child_example = Resolved tr"
    using wait_reads_children_once [of 5 late_child_example _ 10] p all by blast
  ultimately show ?thesis
    using w p s a c by simp
qed

text \<open>
  C7, as the specification states it, fails: the child sequence is not read again
  after a child's \<^verbatim>\<open>wait()\<close> resolves. In the example \<^verbatim>\<open>_completion\<close> resolves at
  time 10, \<^verbatim>\<open>wait()\<close> then reads the first two children and resolves at time 20 with
  the second one, although the third child was appended at time 15, while \<^verbatim>\<open>wait()\<close>
  was pending, and its own \<^verbatim>\<open>wait()\<close> resolves only at time 30.
\<close>

theorem wait_misses_late_child_counterexample:
  "wait_at 0 late_child_example = Resolved 20
   \<and> (15, TimedTask (Resolved 30) []) \<in> set (children late_child_example)
   \<and> performTask_at late_child_example = Resolved 10
   \<and> wait_at 20 (TimedTask (Resolved 30) []) = Resolved 30"
  by code_simp

section \<open>Truncation of a rendered line\<close>

lemma wide_label_line_length:
  "lineLength (colour_terminal (Some 80)) 0 (Task (replicate 80 97) Done [] [] [] 0 Unsettled) = 80"
  by code_simp

lemma wide_label_uncut:
  "render (colour_terminal (Some 200)) 0 80 (Task (replicate 80 97) Done [] [] [] 0 Unsettled)
     = replicate 80 97 @ js ''  ['' @ sgr_open Green @ js ''Done'' @ sgr_close @ js '']''"
  by code_simp

lemma wide_label_cut:
  "render (colour_terminal (Some 80)) 0 80 (Task (replicate 80 97) Done [] [] [] 0 Unsettled)
     = replicate 80 97 @ js ''  ['' @ sgr_open Green @ [32, ellipsis]"
  by code_simp

lemma strip_sgr_letters: "strip_sgr (replicate n 97 @ s) = replicate n 97 @ strip_sgr s"
  by (induction n) (simp_all add: ESC_def)

lemma strip_sgr_cut_tail: "strip_sgr (js ''  ['' @ sgr_open Green @ [32, ellipsis]) = js ''  [ '' @ [ellipsis]"
  by code_simp

lemma wide_label_cut_width:
  "length (strip_sgr (replicate 80 97 @ js ''  ['' @ sgr_open Green @ [32, ellipsis])) = 85"
  by (simp only: strip_sgr_letters strip_sgr_cut_tail) (simp add: js_def)

lemma wider_label_cut:
  "render (colour_terminal (Some 80)) 0 81 (Task (replicate 81 97) Done [] [] [] 0 Unsettled)
     = replicate 81 97 @ js ''  ['' @ [ESC] @ js ''[32'' @ [32, ellipsis]"
  by code_simp

text \<open>
  C8 fails on the code. The cut keeps \<open>available + ansiCount - 2\<close> code units, counting
  every styling code of the line as if it stood before the cut. On an 80-column colour
  terminal, a node with a label of 80 letters and status \<^verbatim>\<open>done\<close> has a line of visual
  width 88; the cut falls right after the code that opens the green colour, so the
  rendered line has visual width 85, still wider than the terminal, and carries the
  opening code without its reset. With a label of 81 letters the cut falls inside the
  opening code.
\<close>

theorem render_overflow_loses_reset:
  "available (colour_terminal (Some 80)) = 80
   \<and> lineLength (colour_terminal (Some 80)) 0 (Task (replicate 80 97) Done [] [] [] 0 Unsettled) = 80
   \<and> render (colour_terminal (Some 200)) 0 80 (Task (replicate 80 97) Done [] [] [] 0 Unsettled)
       = replicate 80 97 @ js ''  ['' @ sgr_open Green @ js ''Done'' @ sgr_close @ js '']''
   \<and> render (colour_terminal (Some 80)) 0 80 (Task (replicate 80 97) Done [] [] [] 0 Unsettled)
       = replicate 80 97 @ js ''  ['' @ sgr_open Green @ [32, ellipsis]
   \<and> length (stripAnsi (colour_terminal (Some 80))
        (render (colour_terminal (Some 80)) 0 80 (Task (replicate 80 97) Done [] [] [] 0 Unsettled)))
       = 85
   \<and> render (colour_terminal (Some 80)) 0 81 (Task (replicate 81 97) Done [] [] [] 0 Unsettled)
       = replicate 81 97 @ js ''  ['' @ [ESC] @ js ''[32'' @ [32, ellipsis]"
proof -
  have a: "available (colour_terminal (Some 80)) = 80"
    by (simp add: available_def colour_terminal_def)
  have s: "stripAnsi (colour_terminal (Some 80)) = strip_sgr"
    by (simp add: colour_terminal_def)
  show ?thesis
    by (simp only: a s wide_label_line_length wide_label_uncut wide_label_cut
        wide_label_cut_width wider_label_cut simp_thms)
qed

end
